theory Spec2Isabelle
  imports Main "HOL-Library.Word"
begin

unbundle bit_operations_syntax

section \<open>Data model\<close>

text \<open>
  Conventions of the embedding.
  \<^item> A byte (\<open>uint8_t\<close>) is an \<open>8 word\<close>; a byte span (\<open>Span<uint8_t>\<close>, pointer and count)
    is a \<open>byte list\<close>, its \<open>size()\<close> the length of the list.
  \<^item> \<open>size_t\<close> quantities (cursors, sizes, byte offsets) are natural numbers in the
    single-value codec and in the Packet codec, where a capacity check against the buffer
    precedes every use of the cursor, so that the sums stay within \<open>size_t\<close> for every
    buffer of fewer than \<open>2 ^ 61\<close> bytes. The shifts and masks of \<open>Core/Math/Memory.hpp\<close>
    are kept as bit operations on \<open>nat\<close>.
  \<^item> A standalone \<open>decode\<close> of a bit field adds \<open>N\<close> to a cursor that nothing has bounded.
    For these calls the cursor is a \<open>64 word\<close> (\<open>size_t\<close> of a 64-bit target) and
    \<open>offset_bits + N\<close> wraps as in the code: \<open>decode_BitField_size_t\<close> and
    \<open>decode_ConstBitField_size_t\<close> below.
  \<^item> A value of an arithmetic or pointer type \<open>T\<close> is its object representation, a list of
    \<open>sizeof(T)\<close> bytes; this is all that \<open>memcpy\<close> sees.
  \<^item> The stored value of a \<open>BitField<N>\<close> is an unsigned number held in the smallest of
    \<open>uint8_t\<close>, \<open>uint16_t\<close>, \<open>uint32_t\<close>, \<open>uint64_t\<close> with at least \<open>N\<close> bits (\<open>bool\<close> for
    \<open>N = 1\<close>, stored as the byte 0 or 1); its object representation is little-endian, as the
    expected byte strings of the repository's tests require.
  \<^item> A mutable in/out argument is passed in and returned: every codec function returns the
    result code, the buffer or the object after the call, and the cursor after the call.
\<close>

type_synonym byte = "8 word"

datatype BinaryResult = Failure | Success

text \<open>\<open>Field<T>\<close>, \<open>BitField<N>\<close>, \<open>ConstBitField<N>\<close> and \<open>Field<Packet<...>>\<close>. A Packet is
  the list of its fields (\<open>m_fields\<close>), in declaration order.\<close>

datatype field =
    FieldT "byte list"
  | BitField nat nat
  | ConstBitField nat nat
  | PacketField "field list"

section \<open>Memory math (Core/Math/Memory.hpp)\<close>

definition bits_to_contain :: "nat \<Rightarrow> nat" where
  "bits_to_contain num_bytes = push_bit 3 num_bytes"

definition bytes_to_contain :: "nat \<Rightarrow> nat" where
  "bytes_to_contain num_bits =
     (let kSizeOverflowsBoundary = ((num_bits AND 7) \<noteq> 0);
          kBaseSizeBytes = drop_bit 3 num_bits
      in kBaseSizeBytes + (if kSizeOverflowsBoundary then 1 else 0))"

definition next_boundary_bit_pos :: "nat \<Rightarrow> nat" where
  "next_boundary_bit_pos start_bit_pos =
     (let next_byte_offset = bytes_to_contain start_bit_pos
      in bits_to_contain next_byte_offset)"

section \<open>Footprints (Footprint.hpp, Primitives.hpp, Field.hpp, _Detail/Packet.hpp)\<close>

text \<open>\<open>smallest_unsigned<N>\<close>: the width in bits of the selected type.\<close>

definition smallest_unsigned :: "nat \<Rightarrow> nat" where
  "smallest_unsigned BitSizeV =
     (if BitSizeV \<le> 8 then 8 else if BitSizeV \<le> 16 then 16
      else if BitSizeV \<le> 32 then 32 else 64)"

text \<open>\<open>add_field_size_bits\<close> (one overload per field kind; a nested Packet is a
  \<open>Field<Packet<...>>\<close> whose \<open>kSizeBits\<close> is the Packet's), the recursion
  \<open>accumulate_packet_field_size_bits_recursive\<close> and \<open>packet_size_bits\<close>.\<close>

fun add_field_size_bits :: "nat \<Rightarrow> field \<Rightarrow> nat"
  and accumulate_packet_field_size_bits_recursive :: "field list \<Rightarrow> nat \<Rightarrow> nat"
  and packet_size_bits :: "field list \<Rightarrow> nat"
where
  "add_field_size_bits aggregate (FieldT v) =
     (let kAggregateBytes = bytes_to_contain aggregate
      in bits_to_contain kAggregateBytes + length v * 8)"
| "add_field_size_bits aggregate (BitField n v) = aggregate + n"
| "add_field_size_bits aggregate (ConstBitField n v) = aggregate + n"
| "add_field_size_bits aggregate (PacketField fs) =
     (let kAggregateBytes = bytes_to_contain aggregate
      in bits_to_contain kAggregateBytes + packet_size_bits fs)"
| "accumulate_packet_field_size_bits_recursive [] aggregate = aggregate"
| "accumulate_packet_field_size_bits_recursive (f # fs) aggregate =
     accumulate_packet_field_size_bits_recursive fs (add_field_size_bits aggregate f)"
| "packet_size_bits fs =
     next_boundary_bit_pos (accumulate_packet_field_size_bits_recursive fs 0)"

text \<open>\<open>Packet::kSizeBits\<close> and \<open>Packet::kSizeBytes\<close>.\<close>

definition kSizeBits :: "field list \<Rightarrow> nat" where
  "kSizeBits fs = packet_size_bits fs"

definition kSizeBytes :: "field list \<Rightarrow> nat" where
  "kSizeBytes fs = bytes_to_contain (kSizeBits fs)"

text \<open>\<open>footprint_size_bits\<close> and \<open>footprint_size_bytes\<close> of a field type.\<close>

fun footprint_size_bits :: "field \<Rightarrow> nat" where
  "footprint_size_bits (FieldT v) = length v * 8"
| "footprint_size_bits (BitField n v) = n"
| "footprint_size_bits (ConstBitField n v) = n"
| "footprint_size_bits (PacketField fs) = kSizeBits fs"

definition footprint_size_bytes :: "field \<Rightarrow> nat" where
  "footprint_size_bytes f = bytes_to_contain (footprint_size_bits f)"

section \<open>Single-value codec (Encode.hpp, Decode.hpp)\<close>

text \<open>\<open>memcpy(dest + d, src, n)\<close> on lists; the callers guard \<open>d + n \<le> length dest\<close>.\<close>

definition memcpy :: "byte list \<Rightarrow> nat \<Rightarrow> byte list \<Rightarrow> nat \<Rightarrow> byte list" where
  "memcpy dest d src n = take d dest @ take n src @ drop (d + n) dest"

definition encode_value :: "byte list \<Rightarrow> byte list \<Rightarrow> nat \<Rightarrow> BinaryResult \<times> byte list \<times> nat" where
  "encode_value obj buffer offset_bits =
     (let kDataStartByteOffset = bytes_to_contain offset_bits;
          kDataFootprintBytes = bytes_to_contain (length obj * 8)
      in if kDataStartByteOffset + kDataFootprintBytes > length buffer
         then (Failure, buffer, offset_bits)
         else (Success,
               memcpy buffer kDataStartByteOffset obj kDataFootprintBytes,
               bits_to_contain kDataStartByteOffset + length obj * 8))"

definition decode_value :: "byte list \<Rightarrow> nat \<Rightarrow> byte list \<Rightarrow> BinaryResult \<times> nat \<times> byte list" where
  "decode_value buffer offset_bits obj =
     (let kDataStartByteOffset = bytes_to_contain offset_bits;
          kDataFootprintBytes = bytes_to_contain (length obj * 8)
      in if kDataStartByteOffset + kDataFootprintBytes > length buffer
         then (Failure, offset_bits, obj)
         else (Success,
               bits_to_contain kDataStartByteOffset + length obj * 8,
               memcpy obj 0 (drop kDataStartByteOffset buffer) kDataFootprintBytes))"

section \<open>Raw bit transfer (_Detail/Field.hpp)\<close>

definition kBitMasks :: "byte list" where
  "kBitMasks = [0x00, 0x01, 0x03, 0x07, 0x0F, 0x1F, 0x3F, 0x7F, 0xFF]"

text \<open>The \<open>while\<close> loop of \<open>encode_bits\<close>. \<open>d\<close> and \<open>s\<close> are the positions of the \<open>dest\<close> and
  \<open>src\<close> pointers; \<open>offset_bits\<close> is the already masked offset within the byte.\<close>

function encode_bits_loop ::
  "nat \<Rightarrow> byte list \<Rightarrow> nat \<Rightarrow> byte list \<Rightarrow> nat \<Rightarrow> nat \<Rightarrow> byte list" where
  "encode_bits_loop offset_bits dest d src s size_bits =
     (if size_bits > 0 then
        (let kStartByteBitsAvailable = 8 - offset_bits;
             kFrontBitsThatFit = min kStartByteBitsAvailable size_bits;
             dest1 = dest[d := (dest ! d) OR
                       push_bit offset_bits ((src ! s) AND (kBitMasks ! kFrontBitsThatFit))];
             size_bits1 = size_bits - kFrontBitsThatFit
         in if offset_bits > 0 \<and> size_bits1 > 0 then
              (let kLeftoverBits = min offset_bits size_bits1;
                   dest2 = dest1[d + 1 :=
                             drop_bit kFrontBitsThatFit (src ! s) AND (kBitMasks ! kLeftoverBits)]
               in encode_bits_loop offset_bits dest2 (d + 1) src (s + 1)
                    (size_bits1 - kLeftoverBits))
            else encode_bits_loop offset_bits dest1 (d + 1) src (s + 1) size_bits1)
      else dest)"
  by pat_completeness auto
termination
proof (relation "measure (\<lambda>(offset_bits, dest, d, src, s, size_bits). size_bits)")
  show "wf (measure (\<lambda>(offset_bits, dest, d, src, s, size_bits). size_bits))"
    by simp
next
  fix offset_bits d s size_bits x xa xc xd :: nat and dest src xe :: "byte list"
  assume "0 < size_bits" "x = 8 - offset_bits" "xa = min x size_bits" "xc = size_bits - xa"
    "0 < offset_bits \<and> 0 < xc" "xd = min offset_bits xc"
  then have "xc - xd < size_bits"
    by arith
  then show "((offset_bits, xe, d + 1, src, s + 1, xc - xd),
              offset_bits, dest, d, src, s, size_bits)
       \<in> measure (\<lambda>(offset_bits, dest, d, src, s, size_bits). size_bits)"
    by simp
next
  fix offset_bits d s size_bits x xa xc :: nat and dest src xb :: "byte list"
  assume "0 < size_bits" "x = 8 - offset_bits" "xa = min x size_bits" "xc = size_bits - xa"
    "\<not> (0 < offset_bits \<and> 0 < xc)"
  then have "xc < size_bits"
    by arith
  then show "((offset_bits, xb, d + 1, src, s + 1, xc),
              offset_bits, dest, d, src, s, size_bits)
       \<in> measure (\<lambda>(offset_bits, dest, d, src, s, size_bits). size_bits)"
    by simp
qed

declare encode_bits_loop.simps [simp del]

definition encode_bits :: "byte list \<Rightarrow> byte list \<Rightarrow> nat \<Rightarrow> nat \<Rightarrow> byte list" where
  "encode_bits dest src offset_bits size_bits =
     (let offset_bytes = bytes_to_contain offset_bits;
          offset_bits1 = offset_bits AND 7;
          offset_bytes1 = (if offset_bits1 > 0 \<and> offset_bytes > 0
                           then offset_bytes - 1 else offset_bytes)
      in encode_bits_loop offset_bits1 dest offset_bytes1 src 0 size_bits)"

function decode_bits_loop ::
  "nat \<Rightarrow> byte list \<Rightarrow> nat \<Rightarrow> byte list \<Rightarrow> nat \<Rightarrow> nat \<Rightarrow> byte list" where
  "decode_bits_loop offset_bits dest d src s size_bits =
     (if size_bits > 0 then
        (let kStartByteBitsAvailable = 8 - offset_bits;
             kFrontBitsThatFit = min kStartByteBitsAvailable size_bits;
             dest1 = dest[d := drop_bit offset_bits (src ! s) AND (kBitMasks ! kFrontBitsThatFit)];
             size_bits1 = size_bits - kFrontBitsThatFit
         in if offset_bits > 0 \<and> size_bits1 > 0 then
              (let kLeftoverBits = min offset_bits size_bits1;
                   dest2 = dest1[d := (dest1 ! d) OR
                             push_bit kFrontBitsThatFit
                               ((src ! (s + 1)) AND (kBitMasks ! kLeftoverBits))]
               in decode_bits_loop offset_bits dest2 (d + 1) src (s + 1)
                    (size_bits1 - kLeftoverBits))
            else decode_bits_loop offset_bits dest1 (d + 1) src (s + 1) size_bits1)
      else dest)"
  by pat_completeness auto
termination
proof (relation "measure (\<lambda>(offset_bits, dest, d, src, s, size_bits). size_bits)")
  show "wf (measure (\<lambda>(offset_bits, dest, d, src, s, size_bits). size_bits))"
    by simp
next
  fix offset_bits d s size_bits x xa xc xd :: nat and dest src xe :: "byte list"
  assume "0 < size_bits" "x = 8 - offset_bits" "xa = min x size_bits" "xc = size_bits - xa"
    "0 < offset_bits \<and> 0 < xc" "xd = min offset_bits xc"
  then have "xc - xd < size_bits"
    by arith
  then show "((offset_bits, xe, d + 1, src, s + 1, xc - xd),
              offset_bits, dest, d, src, s, size_bits)
       \<in> measure (\<lambda>(offset_bits, dest, d, src, s, size_bits). size_bits)"
    by simp
next
  fix offset_bits d s size_bits x xa xc :: nat and dest src xb :: "byte list"
  assume "0 < size_bits" "x = 8 - offset_bits" "xa = min x size_bits" "xc = size_bits - xa"
    "\<not> (0 < offset_bits \<and> 0 < xc)"
  then have "xc < size_bits"
    by arith
  then show "((offset_bits, xb, d + 1, src, s + 1, xc),
              offset_bits, dest, d, src, s, size_bits)
       \<in> measure (\<lambda>(offset_bits, dest, d, src, s, size_bits). size_bits)"
    by simp
qed

declare decode_bits_loop.simps [simp del]

definition decode_bits :: "byte list \<Rightarrow> byte list \<Rightarrow> nat \<Rightarrow> nat \<Rightarrow> byte list" where
  "decode_bits dest src offset_bits size_bits =
     (let offset_bytes = bytes_to_contain offset_bits;
          offset_bits1 = offset_bits AND 7;
          offset_bytes1 = (if offset_bits1 > 0 \<and> offset_bytes > 0
                           then offset_bytes - 1 else offset_bytes)
      in decode_bits_loop offset_bits1 dest 0 src offset_bytes1 size_bits)"

section \<open>Field and Packet codec (Field.hpp, Packet.hpp, _Detail/Packet.hpp)\<close>

text \<open>The object representation of a bit field's stored value and its inverse.\<close>

definition to_bytes :: "nat \<Rightarrow> nat \<Rightarrow> byte list" where
  "to_bytes k v = map (\<lambda>i. of_nat (drop_bit (8 * i) v)) [0..<k]"

fun from_bytes :: "byte list \<Rightarrow> nat" where
  "from_bytes [] = 0"
| "from_bytes (b # bs) = unat b + 256 * from_bytes bs"

definition value_bytes :: "nat \<Rightarrow> nat \<Rightarrow> byte list" where
  "value_bytes n v = to_bytes (smallest_unsigned n div 8) v"

text \<open>\<open>encode\<close> for \<open>BitField<N>\<close> and for \<open>ConstBitField<N>\<close> (the two bodies are the same).\<close>

definition encode_BitField :: "nat \<Rightarrow> nat \<Rightarrow> byte list \<Rightarrow> nat \<Rightarrow> BinaryResult \<times> byte list \<times> nat" where
  "encode_BitField n v buffer offset_bits =
     (let kBufferSizeBits = bits_to_contain (length buffer)
      in if offset_bits + n > kBufferSizeBits
         then (Failure, buffer, offset_bits)
         else (Success, encode_bits buffer (value_bytes n v) offset_bits n, offset_bits + n))"

definition encode_ConstBitField :: "nat \<Rightarrow> nat \<Rightarrow> byte list \<Rightarrow> nat \<Rightarrow> BinaryResult \<times> byte list \<times> nat" where
  "encode_ConstBitField n v buffer offset_bits =
     (let kBufferSizeBits = bits_to_contain (length buffer)
      in if offset_bits + n > kBufferSizeBits
         then (Failure, buffer, offset_bits)
         else (Success, encode_bits buffer (value_bytes n v) offset_bits n, offset_bits + n))"

definition decode_BitField :: "byte list \<Rightarrow> nat \<Rightarrow> nat \<Rightarrow> nat \<Rightarrow> BinaryResult \<times> nat \<times> nat" where
  "decode_BitField buffer offset_bits n v =
     (let kBufferSizeBits = bits_to_contain (length buffer)
      in if offset_bits + n > kBufferSizeBits
         then (Failure, offset_bits, v)
         else (Success, offset_bits + n,
               from_bytes (decode_bits (value_bytes n v) buffer offset_bits n)))"

definition decode_ConstBitField :: "byte list \<Rightarrow> nat \<Rightarrow> nat \<Rightarrow> nat \<Rightarrow> BinaryResult \<times> nat \<times> nat" where
  "decode_ConstBitField buffer offset_bits n v = (Success, offset_bits + n, v)"

text \<open>The overload set \<open>encode(field, buffer, offset_bits)\<close>, the recursion
  \<open>encode_packet_fields_recursive<IndexV, EndV, PacketT>::Do\<close> over the remaining fields, and
  \<open>encode(Packet, buffer, offset_bits)\<close>. The recursion advances its cursor argument field by
  field; the Packet-level function runs it on a local copy and commits on success only.\<close>

fun encode :: "field \<Rightarrow> byte list \<Rightarrow> nat \<Rightarrow> BinaryResult \<times> byte list \<times> nat"
  and encode_packet_fields_recursive ::
        "field list \<Rightarrow> byte list \<Rightarrow> nat \<Rightarrow> BinaryResult \<times> byte list \<times> nat"
  and encode_Packet :: "field list \<Rightarrow> byte list \<Rightarrow> nat \<Rightarrow> BinaryResult \<times> byte list \<times> nat"
where
  "encode (FieldT v) buffer offset_bits = encode_value v buffer offset_bits"
| "encode (BitField n v) buffer offset_bits = encode_BitField n v buffer offset_bits"
| "encode (ConstBitField n v) buffer offset_bits = encode_ConstBitField n v buffer offset_bits"
| "encode (PacketField fs) buffer offset_bits = encode_Packet fs buffer offset_bits"
| "encode_packet_fields_recursive [] buffer offset_bits = (Success, buffer, offset_bits)"
| "encode_packet_fields_recursive (f # fs) buffer offset_bits =
     (case encode f buffer offset_bits of
        (Failure, buffer1, offset_bits1) \<Rightarrow> (Failure, buffer1, offset_bits1)
      | (Success, buffer1, offset_bits1) \<Rightarrow>
          encode_packet_fields_recursive fs buffer1 offset_bits1)"
| "encode_Packet fs buffer offset_bits =
     (let kDataStartOffsetBytes = bytes_to_contain offset_bits;
          encode_offset_bits = bits_to_contain kDataStartOffsetBytes
      in if kDataStartOffsetBytes + kSizeBytes fs > length buffer
         then (Failure, buffer, offset_bits)
         else (case encode_packet_fields_recursive fs buffer encode_offset_bits of
                 (Success, buffer1, encode_offset_bits1) \<Rightarrow>
                   (Success, buffer1, next_boundary_bit_pos encode_offset_bits1)
               | (Failure, buffer1, encode_offset_bits1) \<Rightarrow> (Failure, buffer1, offset_bits)))"

text \<open>The decoding side. The decoded fields are written into the destination Packet one by
  one, so a failure leaves the fields decoded so far in place.\<close>

fun decode :: "byte list \<Rightarrow> nat \<Rightarrow> field \<Rightarrow> BinaryResult \<times> nat \<times> field"
  and decode_packet_fields_recursive ::
        "byte list \<Rightarrow> nat \<Rightarrow> field list \<Rightarrow> BinaryResult \<times> nat \<times> field list"
  and decode_Packet :: "byte list \<Rightarrow> nat \<Rightarrow> field list \<Rightarrow> BinaryResult \<times> nat \<times> field list"
where
  "decode buffer offset_bits (FieldT v) =
     (case decode_value buffer offset_bits v of (r, c, v1) \<Rightarrow> (r, c, FieldT v1))"
| "decode buffer offset_bits (BitField n v) =
     (case decode_BitField buffer offset_bits n v of (r, c, v1) \<Rightarrow> (r, c, BitField n v1))"
| "decode buffer offset_bits (ConstBitField n v) =
     (case decode_ConstBitField buffer offset_bits n v of
        (r, c, v1) \<Rightarrow> (r, c, ConstBitField n v1))"
| "decode buffer offset_bits (PacketField fs) =
     (case decode_Packet buffer offset_bits fs of (r, c, fs1) \<Rightarrow> (r, c, PacketField fs1))"
| "decode_packet_fields_recursive buffer offset_bits [] = (Success, offset_bits, [])"
| "decode_packet_fields_recursive buffer offset_bits (f # fs) =
     (case decode buffer offset_bits f of
        (Failure, offset_bits1, f1) \<Rightarrow> (Failure, offset_bits1, f1 # fs)
      | (Success, offset_bits1, f1) \<Rightarrow>
          (case decode_packet_fields_recursive buffer offset_bits1 fs of
             (r, offset_bits2, fs1) \<Rightarrow> (r, offset_bits2, f1 # fs1)))"
| "decode_Packet buffer offset_bits fs =
     (let kDataStartOffsetBytes = bytes_to_contain offset_bits;
          encode_offset_bits = bits_to_contain kDataStartOffsetBytes
      in if kDataStartOffsetBytes + kSizeBytes fs > length buffer
         then (Failure, offset_bits, fs)
         else (case decode_packet_fields_recursive buffer encode_offset_bits fs of
                 (Success, encode_offset_bits1, fs1) \<Rightarrow>
                   (Success, next_boundary_bit_pos encode_offset_bits1, fs1)
               | (Failure, encode_offset_bits1, fs1) \<Rightarrow> (Failure, offset_bits, fs1)))"

section \<open>Standalone bit-field decode with a \<open>size_t\<close> cursor (Field.hpp)\<close>

text \<open>\<open>decode\<close> for \<open>BitField<N>\<close> and for \<open>ConstBitField<N>\<close> once more, with \<open>offset_bits\<close>
  and \<open>kBufferSizeBits\<close> as 64-bit machine words: the sum \<open>offset_bits + N\<close> of the guard and
  \<open>offset_bits += N\<close> wrap around at \<open>2 ^ 64\<close>. Where the sum of the guard has wrapped and
  the guard lets the call through, \<open>decode_bits\<close> reads beyond the span; the bytes it finds
  there are not specified. \<open>decode_BitField\<close> and \<open>decode_ConstBitField\<close> above are the
  same functions on cursors for which \<open>offset_bits + N\<close> does not wrap
  (\<open>decode_BitField_size_t_agrees\<close>, \<open>decode_ConstBitField_size_t_agrees\<close>).\<close>

definition decode_BitField_size_t ::
  "byte list \<Rightarrow> 64 word \<Rightarrow> nat \<Rightarrow> nat \<Rightarrow> BinaryResult \<times> 64 word \<times> nat" where
  "decode_BitField_size_t buffer offset_bits n v =
     (let kBufferSizeBits = (push_bit 3 (word_of_nat (length buffer)) :: 64 word)
      in if offset_bits + word_of_nat n > kBufferSizeBits
         then (Failure, offset_bits, v)
         else (Success, offset_bits + word_of_nat n,
               from_bytes (decode_bits (value_bytes n v) buffer (unat offset_bits) n)))"

definition decode_ConstBitField_size_t ::
  "byte list \<Rightarrow> 64 word \<Rightarrow> nat \<Rightarrow> nat \<Rightarrow> BinaryResult \<times> 64 word \<times> nat" where
  "decode_ConstBitField_size_t buffer offset_bits n v =
     (Success, offset_bits + word_of_nat n, v)"

section \<open>Session adapters (IO/Session/Ingress.hpp, IO/Session/Egress.hpp)\<close>

text \<open>The sessions are abstract collaborators: \<open>InputBytesAvailable\<close> and
  \<open>OutputBytesAvailable\<close> are the values the session reports, \<open>Request\<close> maps the span it
  is given and the timeout to its result and the span contents after the call, \<open>Post\<close> maps
  the span and the timeout to its result. Timeouts (\<open>std::chrono::microseconds\<close>) and clock
  readings are integers. The adapters return, besides their result, the list of calls made
  to \<open>Request\<close> or \<open>Post\<close> with their arguments.\<close>

record Inbound =
  InputBytesAvailable :: nat
  Request :: "byte list \<Rightarrow> int \<Rightarrow> BinaryResult \<times> byte list"

record Outbound =
  OutputBytesAvailable :: nat
  Post :: "byte list \<Rightarrow> int \<Rightarrow> BinaryResult"

definition Ingress_Get ::
  "Inbound \<Rightarrow> field \<Rightarrow> int \<Rightarrow> BinaryResult \<times> field \<times> (byte list \<times> int) list" where
  "Ingress_Get m_buffer data timeout =
     (let kDataSizeBytes = footprint_size_bytes data
      in if InputBytesAvailable m_buffer < kDataSizeBytes then (Failure, data, [])
         else
           (let encoded_buffer = replicate kDataSizeBytes 0;
                (request_result, rx) = Request m_buffer encoded_buffer timeout;
                calls = [(encoded_buffer, timeout)]
            in if request_result = Failure then (Failure, data, calls)
               else
                 (let (decode_result, bits_decoded, data1) = decode rx 0 data
                  in ((if decode_result = Success then Success else Failure), data1, calls))))"

text \<open>\<open>Egress<T>::Put\<close>; \<open>start_us\<close> and \<open>encoding_end_us\<close> are the two readings of
  \<open>platform::Clock::now()\<close>.\<close>

definition Egress_Put ::
  "Outbound \<Rightarrow> int \<Rightarrow> int \<Rightarrow> field \<Rightarrow> int \<Rightarrow> BinaryResult \<times> (byte list \<times> int) list" where
  "Egress_Put m_buffer start_us encoding_end_us data duration =
     (let kDataSizeBytes = footprint_size_bytes data
      in if OutputBytesAvailable m_buffer < kDataSizeBytes then (Failure, [])
         else
           (let encoded_buffer = replicate kDataSizeBytes 0;
                (encode_result, encoded_span, bits_encoded) = encode data encoded_buffer 0
            in if encode_result \<noteq> Success then (encode_result, [])
               else
                 (let encoding_duration = encoding_end_us - start_us;
                      duration1 = (if encoding_duration > duration then 0
                                   else duration - encoding_duration);
                      post_result = Post m_buffer encoded_span duration1
                  in ((if post_result = Success then Success else Failure),
                      [(encoded_span, duration1)]))))"

section \<open>Notions used to state and prove the properties\<close>

text \<open>The bit at linear position \<open>p\<close> of a byte string: bit \<open>p mod 8\<close> of byte \<open>p div 8\<close>; no bit
  is set beyond the end.\<close>

definition bit_at :: "byte list \<Rightarrow> nat \<Rightarrow> bool" where
  "bit_at buf p = (p div 8 < length buf \<and> bit (buf ! (p div 8)) (p mod 8))"

text \<open>\<open>zero_from buf c\<close>: no bit of the buffer is set at or above bit position \<open>c\<close>.\<close>

definition zero_from :: "byte list \<Rightarrow> nat \<Rightarrow> bool" where
  "zero_from buf c = (\<forall>p. c \<le> p \<longrightarrow> \<not> bit_at buf p)"

text \<open>The schema (the type) of a field or Packet; the size computations and the dispatch of
  the codec depend on it alone.\<close>

datatype schema = SField nat | SBitField nat | SConstBitField nat | SPacket "schema list"

fun schema_of :: "field \<Rightarrow> schema" where
  "schema_of (FieldT v) = SField (length v)"
| "schema_of (BitField n v) = SBitField n"
| "schema_of (ConstBitField n v) = SConstBitField n"
| "schema_of (PacketField fs) = SPacket (map schema_of fs)"

text \<open>\<open>widths_ok\<close>: every bit field is at most 64 bits wide, as the \<open>static_assert\<close> of
  \<open>smallest_unsigned\<close> demands. \<open>values_in_width\<close>: every BitField value fits the declared
  width, \<open>v < 2 ^ N\<close>. \<open>spare_bytes_zero\<close>: in a destination Packet, every BitField value is
  zero in the bytes of its storage above the \<open>ceil(N / 8)\<close> bytes that \<open>decode_bits\<close> writes (a
  default-constructed Packet is all zero). \<open>mutable_part\<close> forgets the stored values of the
  ConstBitFields.\<close>

fun widths_ok :: "field \<Rightarrow> bool" where
  "widths_ok (FieldT v) = True"
| "widths_ok (BitField n v) = (n \<le> 64)"
| "widths_ok (ConstBitField n v) = (n \<le> 64)"
| "widths_ok (PacketField fs) = list_all widths_ok fs"

fun values_in_width :: "field \<Rightarrow> bool" where
  "values_in_width (FieldT v) = True"
| "values_in_width (BitField n v) = (v < 2 ^ n)"
| "values_in_width (ConstBitField n v) = True"
| "values_in_width (PacketField fs) = list_all values_in_width fs"

fun spare_bytes_zero :: "field \<Rightarrow> bool" where
  "spare_bytes_zero (FieldT v) = True"
| "spare_bytes_zero (BitField n v) = (v < 2 ^ (8 * bytes_to_contain n))"
| "spare_bytes_zero (ConstBitField n v) = True"
| "spare_bytes_zero (PacketField fs) = list_all spare_bytes_zero fs"

fun mutable_part :: "field \<Rightarrow> field" where
  "mutable_part (FieldT v) = FieldT v"
| "mutable_part (BitField n v) = BitField n v"
| "mutable_part (ConstBitField n v) = ConstBitField n 0"
| "mutable_part (PacketField fs) = PacketField (map mutable_part fs)"

text \<open>Packets made of BitField and ConstBitField only, and the stored value of a field.\<close>

fun is_bit_field :: "field \<Rightarrow> bool" where
  "is_bit_field (FieldT v) = False"
| "is_bit_field (BitField n v) = (n \<le> 64)"
| "is_bit_field (ConstBitField n v) = (n \<le> 64)"
| "is_bit_field (PacketField fs) = False"

fun stored_value :: "field \<Rightarrow> nat" where
  "stored_value (FieldT v) = from_bytes v"
| "stored_value (BitField n v) = v"
| "stored_value (ConstBitField n v) = v"
| "stored_value (PacketField fs) = 0"

text \<open>The ConstBitField values stored in a field, in traversal order.\<close>

fun const_fields :: "field \<Rightarrow> (nat \<times> nat) list" where
  "const_fields (FieldT v) = []"
| "const_fields (BitField n v) = []"
| "const_fields (ConstBitField n v) = [(n, v)]"
| "const_fields (PacketField fs) = concat (map const_fields fs)"

text \<open>One iteration of each raw bit transfer loop as a function of the destination, with the
  mask table read as \<open>mask\<close>; \<open>encode_bits_loop_unfold\<close> and \<open>decode_bits_loop_unfold\<close>
  below relate them to the loops.\<close>

definition encode_step :: "nat \<Rightarrow> byte list \<Rightarrow> nat \<Rightarrow> byte \<Rightarrow> nat \<Rightarrow> byte list" where
  "encode_step ob dest d x n =
     (let front = min (8 - ob) n;
          dest1 = dest[d := (dest ! d) OR push_bit ob (x AND mask front)]
      in if 0 < ob \<and> front < n
         then dest1[d + 1 := drop_bit front x AND mask (min ob (n - front))]
         else dest1)"

definition decode_step :: "nat \<Rightarrow> byte list \<Rightarrow> nat \<Rightarrow> byte list \<Rightarrow> nat \<Rightarrow> nat \<Rightarrow> byte list" where
  "decode_step ob dest d src s n =
     (let front = min (8 - ob) n;
          dest1 = dest[d := drop_bit ob (src ! s) AND mask front]
      in if 0 < ob \<and> front < n
         then dest1[d := (dest1 ! d) OR push_bit front ((src ! (s + 1)) AND mask (min ob (n - front)))]
         else dest1)"

section \<open>Memory math and loop unfolding\<close>

lemma bits_to_contain_eq: "bits_to_contain n = 8 * n"
  by (simp add: bits_to_contain_def push_bit_eq_mult)

lemma and_7_eq_mod: "(n::nat) AND 7 = n mod 8"
proof -
  have "(7::nat) = mask 3"
    by (simp add: mask_eq_exp_minus_1)
  then have "n AND 7 = take_bit 3 n"
    by (simp only: take_bit_eq_mask)
  then show ?thesis
    by (simp add: take_bit_eq_mod)
qed

lemma bytes_to_contain_eq: "bytes_to_contain n = (n + 7) div 8"
  by (simp add: bytes_to_contain_def and_7_eq_mod drop_bit_eq_div) presburger

lemma next_boundary_bit_pos_eq: "next_boundary_bit_pos n = 8 * ((n + 7) div 8)"
  by (simp add: next_boundary_bit_pos_def bits_to_contain_eq bytes_to_contain_eq)

lemmas mem_math = bits_to_contain_eq bytes_to_contain_eq next_boundary_bit_pos_eq

lemma kBitMasks_nth: "k \<le> 8 \<Longrightarrow> kBitMasks ! k = mask k"
proof -
  assume "k \<le> 8"
  then consider "k = 0" | "k = 1" | "k = 2" | "k = 3" | "k = 4" | "k = 5" | "k = 6" | "k = 7" | "k = 8"
    by arith
  then show ?thesis
    by cases (simp_all add: kBitMasks_def mask_eq_exp_minus_1)
qed

lemma encode_bits_loop_0: "encode_bits_loop ob dest d src s 0 = dest"
  by (subst encode_bits_loop.simps) simp

lemma encode_bits_loop_unfold:
  assumes "ob < 8" "0 < n"
  shows "encode_bits_loop ob dest d src s n =
         encode_bits_loop ob (encode_step ob dest d (src ! s) n) (d + 1) src (s + 1) (n - min 8 n)"
proof -
  define front where "front = min (8 - ob) n"
  have f8: "front \<le> 8" by (simp add: front_def)
  show ?thesis
  proof (cases "0 < ob \<and> front < n")
    case True
    define left where "left = min ob (n - front)"
    have l8: "left \<le> 8" using assms by (simp add: left_def)
    have sz: "n - front - left = n - min 8 n"
      using True assms unfolding front_def left_def by arith
    have T: "0 < ob \<and> 0 < n - front" using True by simp
    show ?thesis
      apply (subst encode_bits_loop.simps)
      apply (simp only: Let_def assms if_True front_def[symmetric] T left_def[symmetric] sz
                kBitMasks_nth[OF f8] kBitMasks_nth[OF l8])
      apply (simp only: encode_step_def Let_def front_def[symmetric] True if_True left_def[symmetric] simp_thms)
      done
  next
    case False
    have sz: "n - front = n - min 8 n"
      using False assms unfolding front_def by arith
    have F: "\<not> (0 < ob \<and> 0 < n - front)" using False by simp
    show ?thesis
      apply (subst encode_bits_loop.simps)
      apply (simp only: Let_def assms if_True front_def[symmetric] F if_False kBitMasks_nth[OF f8])
      apply (simp only: sz encode_step_def Let_def front_def[symmetric] False if_False simp_thms)
      done
  qed
qed

lemma length_encode_step: "length (encode_step ob dest d x n) = length dest"
  by (simp add: encode_step_def Let_def)

lemma length_encode_bits_loop:
  "ob < 8 \<Longrightarrow> length (encode_bits_loop ob dest d src s n) = length dest"
proof (induction n arbitrary: dest d s rule: less_induct)
  case (less n)
  show ?case
  proof (cases "n = 0")
    case True
    then show ?thesis by (simp add: encode_bits_loop_0)
  next
    case False
    then have "n - min 8 n < n" by arith
    from less.IH[OF this less.prems] show ?thesis
      using False less.prems by (simp add: encode_bits_loop_unfold length_encode_step)
  qed
qed

section \<open>Cursor arithmetic of the Packet codec\<close>

lemma round8_shift: "(8 * k + a + 7) div 8 = k + (a + 7) div (8::nat)"
  by presburger

lemma le_round8: "a \<le> 8 * ((a + 7) div (8::nat))"
  by presburger

lemma packet_size_bits_eq:
  "packet_size_bits fs = 8 * ((accumulate_packet_field_size_bits_recursive fs 0 + 7) div 8)"
  by (simp add: mem_math)

declare packet_size_bits.simps [simp del]

lemma add_field_size_bits_shift:
  "add_field_size_bits (8 * k + a) f = 8 * k + add_field_size_bits a f"
  by (cases f) (simp_all add: mem_math round8_shift)

lemma accumulate_shift:
  "accumulate_packet_field_size_bits_recursive fs (8 * k + a) =
   8 * k + accumulate_packet_field_size_bits_recursive fs a"
  by (induction fs arbitrary: a) (simp_all add: add_field_size_bits_shift)

lemma add_field_size_bits_mono: "a \<le> add_field_size_bits a f"
  by (cases f) (simp_all add: mem_math trans_le_add1 le_round8)

lemma accumulate_mono: "a \<le> accumulate_packet_field_size_bits_recursive fs a"
proof (induction fs arbitrary: a)
  case Nil
  then show ?case by simp
next
  case (Cons f fs)
  have "a \<le> add_field_size_bits a f" by (rule add_field_size_bits_mono)
  also have "\<dots> \<le> accumulate_packet_field_size_bits_recursive fs (add_field_size_bits a f)"
    by (rule Cons.IH)
  finally show ?case by simp
qed

lemma length_encode_bits: "length (encode_bits dest src c n) = length dest"
  by (simp add: encode_bits_def Let_def length_encode_bits_loop and_7_eq_mod)

lemma length_memcpy:
  "d + n \<le> length dest \<Longrightarrow> n \<le> length src \<Longrightarrow> length (memcpy dest d src n) = length dest"
  by (simp add: memcpy_def)

lemma bytes_of_bits: "(n * 8 + 7) div 8 = (n::nat)"
  by presburger

lemma encode_value_Success:
  "encode_value v buffer c = (Success, b, c') \<longleftrightarrow>
     (c + 7) div 8 + length v \<le> length buffer \<and>
     b = memcpy buffer ((c + 7) div 8) v (length v) \<and> c' = 8 * ((c + 7) div 8) + 8 * length v"
  by (auto simp: encode_value_def mem_math Let_def bytes_of_bits)

lemma encode_BitField_Success:
  "encode_BitField n v buffer c = (Success, b, c') \<longleftrightarrow>
     c + n \<le> 8 * length buffer \<and> b = encode_bits buffer (value_bytes n v) c n \<and> c' = c + n"
  by (auto simp: encode_BitField_def mem_math Let_def)

lemma encode_ConstBitField_Success:
  "encode_ConstBitField n v buffer c = (Success, b, c') \<longleftrightarrow>
     c + n \<le> 8 * length buffer \<and> b = encode_bits buffer (value_bytes n v) c n \<and> c' = c + n"
  by (auto simp: encode_ConstBitField_def mem_math Let_def)

lemma encode_packet_fields_recursive_Cons_Success:
  "encode_packet_fields_recursive (f # fs) buffer c = (Success, b, c') \<longleftrightarrow>
     (\<exists>b1 c1. encode f buffer c = (Success, b1, c1) \<and>
        encode_packet_fields_recursive fs b1 c1 = (Success, b, c'))"
  by (auto split: prod.splits BinaryResult.splits)

lemma encode_Packet_Success:
  "encode_Packet fs buffer c = (Success, b, c') \<longleftrightarrow>
     (c + 7) div 8 + kSizeBytes fs \<le> length buffer \<and>
     (\<exists>c1. encode_packet_fields_recursive fs buffer (8 * ((c + 7) div 8)) = (Success, b, c1) \<and>
        c' = 8 * ((c1 + 7) div 8))"
  by (auto simp: mem_math Let_def split: prod.splits BinaryResult.splits)


declare encode_Packet.simps [simp del] decode_Packet.simps [simp del]

lemma encode_cursor:
  "encode f buffer c = (Success, b, c') \<Longrightarrow>
     c' = add_field_size_bits c f \<and> length b = length buffer"
  "encode_packet_fields_recursive fs buffer c = (Success, b, c') \<Longrightarrow>
     c' = accumulate_packet_field_size_bits_recursive fs c \<and> length b = length buffer"
  "encode_Packet fs buffer c = (Success, b, c') \<Longrightarrow>
     c' = 8 * ((c + 7) div 8) + packet_size_bits fs \<and> length b = length buffer"
proof (induction f buffer c and fs buffer c and fs buffer c arbitrary: b c' and b c' and b c'
    rule: encode_encode_packet_fields_recursive_encode_Packet.induct)
  case (1 v buffer offset_bits)
  then show ?case
    by (simp add: encode_value_Success mem_math length_memcpy)
next
  case (2 n v buffer offset_bits)
  then show ?case by (simp add: encode_BitField_Success length_encode_bits)
next
  case (3 n v buffer offset_bits)
  then show ?case by (simp add: encode_ConstBitField_Success length_encode_bits)
next
  case (4 fs buffer offset_bits)
  then show ?case by (simp add: mem_math)
next
  case (5 buffer offset_bits)
  then show ?case by simp
next
  case (6 f fs buffer offset_bits)
  from "6.prems" obtain b1 c1 where e: "encode f buffer offset_bits = (Success, b1, c1)"
    and r: "encode_packet_fields_recursive fs b1 c1 = (Success, b, c')"
    unfolding encode_packet_fields_recursive_Cons_Success by blast
  from "6.IH"(1)[OF e] have 1: "c1 = add_field_size_bits offset_bits f" "length b1 = length buffer"
    by simp_all
  from "6.IH"(2)[OF e[symmetric] refl refl r] show ?case using 1 by simp
next
  case (7 fs buffer offset_bits)
  from "7.prems" obtain c1 where g: "(offset_bits + 7) div 8 + kSizeBytes fs \<le> length buffer"
    and r: "encode_packet_fields_recursive fs buffer (8 * ((offset_bits + 7) div 8)) = (Success, b, c1)"
    and c': "c' = 8 * ((c1 + 7) div 8)"
    unfolding encode_Packet_Success by blast
  have "c1 = accumulate_packet_field_size_bits_recursive fs (8 * ((offset_bits + 7) div 8) + 0) \<and> length b = length buffer"
    using "7.IH"[of "bytes_to_contain offset_bits" "bits_to_contain (bytes_to_contain offset_bits)" b c1] g r
    by (simp add: mem_math)
  then show ?case unfolding c'
    by (simp only: accumulate_shift packet_size_bits_eq round8_shift) simp
qed


lemma kSizeBytes_eq: "8 * kSizeBytes fs = packet_size_bits fs"
  by (simp add: kSizeBytes_def kSizeBits_def mem_math packet_size_bits_eq)

lemma encode_succeeds:
  "add_field_size_bits c f \<le> 8 * length buffer \<Longrightarrow> fst (encode f buffer c) = Success"
  "accumulate_packet_field_size_bits_recursive fs c \<le> 8 * length buffer \<Longrightarrow>
     fst (encode_packet_fields_recursive fs buffer c) = Success"
  "8 * ((c + 7) div 8) + packet_size_bits fs \<le> 8 * length buffer \<Longrightarrow>
     fst (encode_Packet fs buffer c) = Success"
proof (induction f buffer c and fs buffer c and fs buffer c
    rule: encode_encode_packet_fields_recursive_encode_Packet.induct)
  case (1 v buffer offset_bits)
  then show ?case
    by (simp add: encode_value_def mem_math Let_def bytes_of_bits)
next
  case (2 n v buffer offset_bits)
  then show ?case by (simp add: encode_BitField_def mem_math Let_def)
next
  case (3 n v buffer offset_bits)
  then show ?case by (simp add: encode_ConstBitField_def mem_math Let_def)
next
  case (4 fs buffer offset_bits)
  then show ?case by (simp add: mem_math)
next
  case (5 buffer offset_bits)
  then show ?case by simp
next
  case (6 f fs buffer offset_bits)
  have "add_field_size_bits offset_bits f \<le>
        accumulate_packet_field_size_bits_recursive fs (add_field_size_bits offset_bits f)"
    by (rule accumulate_mono)
  with "6.prems" have "add_field_size_bits offset_bits f \<le> 8 * length buffer"
    by simp
  from "6.IH"(1)[OF this] obtain b1 c1 where e: "encode f buffer offset_bits = (Success, b1, c1)"
    by (metis prod.collapse)
  from encode_cursor(1)[OF e] have 1: "c1 = add_field_size_bits offset_bits f" "length b1 = length buffer"
    by simp_all
  from "6.IH"(2)[OF e[symmetric] refl refl] "6.prems" 1 show ?case
    by (simp add: e)
next
  case (7 fs buffer offset_bits)
  let ?start = "(offset_bits + 7) div 8"
  from "7.prems" have g: "?start + kSizeBytes fs \<le> length buffer"
    using kSizeBytes_eq[of fs] by arith
  have "accumulate_packet_field_size_bits_recursive fs (8 * ?start + 0) \<le> 8 * ?start + packet_size_bits fs"
    unfolding accumulate_shift packet_size_bits_eq using le_round8 by simp
  with "7.prems" have "accumulate_packet_field_size_bits_recursive fs (8 * ?start) \<le> 8 * length buffer"
    by simp
  with "7.IH"[of "bytes_to_contain offset_bits" "bits_to_contain (bytes_to_contain offset_bits)"] g
  have "fst (encode_packet_fields_recursive fs buffer (8 * ?start)) = Success"
    by (simp add: mem_math)
  then show ?case using g
    by (auto simp: encode_Packet.simps mem_math Let_def split: prod.splits BinaryResult.splits)
qed

lemma decode_value_Success:
  "decode_value buffer c v = (Success, c', v') \<longleftrightarrow>
     (c + 7) div 8 + length v \<le> length buffer \<and>
     c' = 8 * ((c + 7) div 8) + 8 * length v \<and>
     v' = memcpy v 0 (drop ((c + 7) div 8) buffer) (length v)"
  by (auto simp: decode_value_def mem_math Let_def bytes_of_bits)

lemma decode_BitField_Success:
  "decode_BitField buffer c n v = (Success, c', v') \<longleftrightarrow>
     c + n \<le> 8 * length buffer \<and> c' = c + n \<and>
     v' = from_bytes (decode_bits (value_bytes n v) buffer c n)"
  by (auto simp: decode_BitField_def mem_math Let_def)

lemma decode_packet_fields_recursive_Cons_Success:
  "decode_packet_fields_recursive buffer c (f # fs) = (Success, c', fs') \<longleftrightarrow>
     (\<exists>c1 f1 fs1. decode buffer c f = (Success, c1, f1) \<and>
        decode_packet_fields_recursive buffer c1 fs = (Success, c', fs1) \<and> fs' = f1 # fs1)"
  by (auto split: prod.splits BinaryResult.splits)

lemma decode_Packet_Success:
  "decode_Packet buffer c fs = (Success, c', fs') \<longleftrightarrow>
     (c + 7) div 8 + kSizeBytes fs \<le> length buffer \<and>
     (\<exists>c1. decode_packet_fields_recursive buffer (8 * ((c + 7) div 8)) fs = (Success, c1, fs') \<and>
        c' = 8 * ((c1 + 7) div 8))"
  by (auto simp: decode_Packet.simps mem_math Let_def split: prod.splits BinaryResult.splits)

lemma decode_cursor:
  "decode buffer c f = (Success, c', f') \<Longrightarrow> c' = add_field_size_bits c f"
  "decode_packet_fields_recursive buffer c fs = (Success, c', fs') \<Longrightarrow>
     c' = accumulate_packet_field_size_bits_recursive fs c"
  "decode_Packet buffer c fs = (Success, c', fs') \<Longrightarrow>
     c' = 8 * ((c + 7) div 8) + packet_size_bits fs"
proof (induction buffer c f and buffer c fs and buffer c fs arbitrary: c' f' and c' fs' and c' fs'
    rule: decode_decode_packet_fields_recursive_decode_Packet.induct)
  case (1 buffer offset_bits v)
  then show ?case
    by (auto simp: decode_value_Success mem_math split: prod.splits)
next
  case (2 buffer offset_bits n v)
  then show ?case by (auto simp: decode_BitField_Success split: prod.splits)
next
  case (3 buffer offset_bits n v)
  then show ?case by (auto simp: decode_ConstBitField_def)
next
  case (4 buffer offset_bits fs)
  then show ?case by (auto simp: mem_math split: prod.splits)
next
  case (5 buffer offset_bits)
  then show ?case by simp
next
  case (6 buffer offset_bits f fs)
  from "6.prems" obtain c1 f1 fs1 where e: "decode buffer offset_bits f = (Success, c1, f1)"
    and r: "decode_packet_fields_recursive buffer c1 fs = (Success, c', fs1)"
    unfolding decode_packet_fields_recursive_Cons_Success by blast
  from "6.IH"(1)[OF e] have 1: "c1 = add_field_size_bits offset_bits f" .
  from "6.IH"(2)[OF e[symmetric] refl refl r] show ?case using 1 by simp
next
  case (7 buffer offset_bits fs)
  from "7.prems" obtain c1 where g: "(offset_bits + 7) div 8 + kSizeBytes fs \<le> length buffer"
    and r: "decode_packet_fields_recursive buffer (8 * ((offset_bits + 7) div 8)) fs = (Success, c1, fs')"
    and c': "c' = 8 * ((c1 + 7) div 8)"
    unfolding decode_Packet_Success by blast
  have "c1 = accumulate_packet_field_size_bits_recursive fs (8 * ((offset_bits + 7) div 8) + 0)"
    using "7.IH"[of "bytes_to_contain offset_bits" "bits_to_contain (bytes_to_contain offset_bits)" c1 fs'] g r
    by (simp add: mem_math)
  then show ?case unfolding c'
    by (simp only: accumulate_shift packet_size_bits_eq round8_shift) simp
qed

lemma decode_succeeds:
  "add_field_size_bits c f \<le> 8 * length buffer \<Longrightarrow> fst (decode buffer c f) = Success"
  "accumulate_packet_field_size_bits_recursive fs c \<le> 8 * length buffer \<Longrightarrow>
     fst (decode_packet_fields_recursive buffer c fs) = Success"
  "8 * ((c + 7) div 8) + packet_size_bits fs \<le> 8 * length buffer \<Longrightarrow>
     fst (decode_Packet buffer c fs) = Success"
proof (induction buffer c f and buffer c fs and buffer c fs
    rule: decode_decode_packet_fields_recursive_decode_Packet.induct)
  case (1 buffer offset_bits v)
  then show ?case
    by (simp add: decode_value_def mem_math Let_def bytes_of_bits)
next
  case (2 buffer offset_bits n v)
  then show ?case by (simp add: decode_BitField_def mem_math Let_def)
next
  case (3 buffer offset_bits n v)
  then show ?case by (simp add: decode_ConstBitField_def)
next
  case (4 buffer offset_bits fs)
  then show ?case
    by (cases "decode_Packet buffer offset_bits fs") (auto simp: mem_math)
next
  case (5 buffer offset_bits)
  then show ?case by simp
next
  case (6 buffer offset_bits f fs)
  have "add_field_size_bits offset_bits f \<le>
        accumulate_packet_field_size_bits_recursive fs (add_field_size_bits offset_bits f)"
    by (rule accumulate_mono)
  with "6.prems" have "add_field_size_bits offset_bits f \<le> 8 * length buffer"
    by simp
  from "6.IH"(1)[OF this] obtain c1 f1 where e: "decode buffer offset_bits f = (Success, c1, f1)"
    by (metis prod.collapse)
  from decode_cursor(1)[OF e] have 1: "c1 = add_field_size_bits offset_bits f" .
  from "6.IH"(2)[OF e[symmetric] refl refl] "6.prems" 1 show ?case
    by (cases "decode_packet_fields_recursive buffer c1 fs") (auto simp: e)
next
  case (7 buffer offset_bits fs)
  let ?start = "(offset_bits + 7) div 8"
  from "7.prems" have g: "?start + kSizeBytes fs \<le> length buffer"
    using kSizeBytes_eq[of fs] by arith
  have "accumulate_packet_field_size_bits_recursive fs (8 * ?start + 0) \<le> 8 * ?start + packet_size_bits fs"
    unfolding accumulate_shift packet_size_bits_eq using le_round8 by simp
  with "7.prems" have "accumulate_packet_field_size_bits_recursive fs (8 * ?start) \<le> 8 * length buffer"
    by simp
  with "7.IH"[of "bytes_to_contain offset_bits" "bits_to_contain (bytes_to_contain offset_bits)"] g
  have "fst (decode_packet_fields_recursive buffer (8 * ?start) fs) = Success"
    by (simp add: mem_math)
  then show ?case using g
    by (auto simp: decode_Packet.simps mem_math Let_def split: prod.splits BinaryResult.splits)
qed

section \<open>Claims on the cursor\<close>

lemma round8_dvd: "8 * ((c + 7) div 8) + packet_size_bits fs - c = packet_size_bits fs" if "c mod 8 = 0" for c :: nat
proof -
  from that have "8 * ((c + 7) div 8) = c" by presburger
  then show ?thesis by simp
qed

text \<open>
  Claim C2 (amended). When Packet-level \<open>encode\<close> or \<open>decode\<close> returns success, the cursor
  on return is the next byte boundary of the entry cursor plus \<open>size_in_bits(Packet)\<close>; it is
  a multiple of 8; and the difference between return and entry value is exactly
  \<open>size_in_bits(Packet)\<close> when the entry cursor is byte-aligned.
\<close>

theorem Packet_success_cursor:
  "(encode_Packet fs buffer c = (Success, b, c') \<longrightarrow>
      c' = next_boundary_bit_pos c + kSizeBits fs \<and> c' mod 8 = 0 \<and>
      (c mod 8 = 0 \<longrightarrow> c' - c = kSizeBits fs)) \<and>
   (decode_Packet buffer c fs = (Success, c', fs') \<longrightarrow>
      c' = next_boundary_bit_pos c + kSizeBits fs \<and> c' mod 8 = 0 \<and>
      (c mod 8 = 0 \<longrightarrow> c' - c = kSizeBits fs))"
proof (intro conjI impI)
  assume "encode_Packet fs buffer c = (Success, b, c')"
  then have c': "c' = 8 * ((c + 7) div 8) + packet_size_bits fs"
    by (simp add: encode_cursor(3))
  show "c' = next_boundary_bit_pos c + kSizeBits fs"
    by (simp add: c' mem_math kSizeBits_def)
  show "c' mod 8 = 0"
    by (simp add: c' packet_size_bits_eq)
  show "c' - c = kSizeBits fs" if "c mod 8 = 0"
    using that by (simp add: c' kSizeBits_def round8_dvd)
next
  assume "decode_Packet buffer c fs = (Success, c', fs')"
  then have c': "c' = 8 * ((c + 7) div 8) + packet_size_bits fs"
    by (simp add: decode_cursor(3))
  show "c' = next_boundary_bit_pos c + kSizeBits fs"
    by (simp add: c' mem_math kSizeBits_def)
  show "c' mod 8 = 0"
    by (simp add: c' packet_size_bits_eq)
  show "c' - c = kSizeBits fs" if "c mod 8 = 0"
    using that by (simp add: c' kSizeBits_def round8_dvd)
qed


lemmas eval_defs = encode_Packet.simps decode_Packet.simps kSizeBytes_def kSizeBits_def
  packet_size_bits_eq mem_math encode_BitField_def encode_ConstBitField_def decode_BitField_def
  decode_ConstBitField_def encode_value_def decode_value_def Let_def

theorem Packet_success_cursor_witness:
  "encode_Packet [BitField 1 1] [0, 0] 3 = (Success, fst (snd (encode_Packet [BitField 1 1] [0, 0] 3)), 16) \<and>
   16 = next_boundary_bit_pos 3 + kSizeBits [BitField 1 1] \<and> (16::nat) mod 8 = 0 \<and>
   decode_Packet [5] 0 [ConstBitField 3 0] = (Success, 8, [ConstBitField 3 0]) \<and>
   (0::nat) mod 8 = 0 \<and> 8 - 0 = kSizeBits [ConstBitField 3 0]"
  using Packet_success_cursor [of "[BitField 1 1]" "[0, 0]" 3 "fst (snd (encode_Packet [BitField 1 1] [0, 0] 3))" 16]
    Packet_success_cursor [of "[ConstBitField 3 0]" "[5]" 0 _ 8 "[ConstBitField 3 0]"]
  by (simp add: eval_defs)

text \<open>
  Claim C2 as stated fails for an entry cursor that is not byte-aligned: a one-bit Packet
  encoded from cursor 3 into two bytes succeeds and returns cursor 16, an advance of 13 bits
  for a Packet of 8 bits.
\<close>

theorem Packet_cursor_difference_counterexample:
  "fst (encode_Packet [BitField 1 1] [0, 0] 3) = Success \<and>
   snd (snd (encode_Packet [BitField 1 1] [0, 0] 3)) - 3 \<noteq> kSizeBits [BitField 1 1]"
  by (simp add: eval_defs)

text \<open>
  Claim C3. If Packet-level \<open>encode\<close> or \<open>decode\<close> returns failure, the cursor on return equals
  the cursor on entry; the same holds for every single-field \<open>encode\<close> and \<open>decode\<close>
  (aligned value, BitField, ConstBitField, nested Packet).
\<close>

theorem failure_keeps_cursor:
  "(fst (encode_Packet fs buffer c) = Failure \<longrightarrow> snd (snd (encode_Packet fs buffer c)) = c) \<and>
   (fst (decode_Packet buffer c fs) = Failure \<longrightarrow> fst (snd (decode_Packet buffer c fs)) = c) \<and>
   (fst (encode f buffer c) = Failure \<longrightarrow> snd (snd (encode f buffer c)) = c) \<and>
   (fst (decode buffer c f) = Failure \<longrightarrow> fst (snd (decode buffer c f)) = c)"
proof -
  have E: "fst (encode_Packet fs buffer c) = Failure \<longrightarrow> snd (snd (encode_Packet fs buffer c)) = c"
    for fs buffer c
    by (simp add: encode_Packet.simps Let_def split: prod.splits BinaryResult.splits)
  have D: "fst (decode_Packet buffer c fs) = Failure \<longrightarrow> fst (snd (decode_Packet buffer c fs)) = c"
    for fs buffer c
    by (simp add: decode_Packet.simps Let_def split: prod.splits BinaryResult.splits)
  have "fst (encode f buffer c) = Failure \<longrightarrow> snd (snd (encode f buffer c)) = c"
    using E by (cases f) (simp_all add: encode_value_def encode_BitField_def encode_ConstBitField_def Let_def)
  moreover have "fst (decode buffer c f) = Failure \<longrightarrow> fst (snd (decode buffer c f)) = c"
  proof (cases f)
    case (PacketField fs)
    then show ?thesis
      using D[of buffer c fs] by (cases "decode_Packet buffer c fs") simp
  qed (simp_all add: decode_value_def decode_BitField_def decode_ConstBitField_def Let_def)
  ultimately show ?thesis using E D by blast
qed

theorem failure_keeps_cursor_witness:
  "fst (encode_Packet [BitField 1 1] [] 5) = Failure \<and>
   snd (snd (encode_Packet [BitField 1 1] [] 5)) = 5 \<and>
   fst (decode_Packet [] 5 [BitField 1 1]) = Failure \<and>
   fst (snd (decode_Packet [] 5 [BitField 1 1])) = 5 \<and>
   fst (encode (FieldT [1, 2]) [0] 3) = Failure \<and>
   snd (snd (encode (FieldT [1, 2]) [0] 3)) = 3 \<and>
   fst (decode [0] 7 (BitField 2 0)) = Failure \<and>
   fst (snd (decode [0] 7 (BitField 2 0))) = 7"
  using failure_keeps_cursor [of "[BitField 1 1]" "[]" 5 "FieldT [1, 2]"]
    failure_keeps_cursor [of "[]" "[0]" 3 "FieldT [1, 2]"]
    failure_keeps_cursor [of "[]" "[0]" 7 "BitField 2 0"]
  by (simp add: eval_defs)

section \<open>Claims on single fields\<close>

text \<open>
  Claim C5. Single-value \<open>encode\<close> of a value of an arithmetic or pointer type \<open>T\<close> (object
  representation \<open>obj\<close>, \<open>size_in_bytes(T) = length obj\<close>, \<open>size_in_bits(T) = 8 * length obj\<close>)
  computes \<open>start_byte = ceil(c / 8)\<close>; it fails with buffer and cursor unchanged exactly when
  \<open>start_byte + size_in_bytes(T) > buffer.size()\<close>; otherwise it succeeds, the buffer holds the
  bytes of \<open>obj\<close> from \<open>start_byte\<close> on and is unchanged elsewhere, and the cursor is
  \<open>8 * start_byte + size_in_bits(T)\<close>. Single-value \<open>decode\<close> is the symmetric read.
\<close>

theorem single_value_codec:
  "encode_value obj buffer c =
     (if (c + 7) div 8 + length obj > length buffer then (Failure, buffer, c)
      else (Success,
            take ((c + 7) div 8) buffer @ obj @ drop ((c + 7) div 8 + length obj) buffer,
            8 * ((c + 7) div 8) + 8 * length obj)) \<and>
   decode_value buffer c obj =
     (if (c + 7) div 8 + length obj > length buffer then (Failure, c, obj)
      else (Success, 8 * ((c + 7) div 8) + 8 * length obj,
            take (length obj) (drop ((c + 7) div 8) buffer)))"
  by (simp add: encode_value_def decode_value_def memcpy_def mem_math bytes_of_bits Let_def)

theorem single_value_codec_witness:
  "encode_value [0xFF] [0, 0] 3 = (Success, [0, 0xFF], 16) \<and>
   encode_value [1, 2, 3, 4] [0xFF, 0] 8 = (Failure, [0xFF, 0], 8) \<and>
   decode_value [7, 9] 3 [0] = (Success, 16, [9]) \<and>
   decode_value [7] 3 [0] = (Failure, 3, [0])"
  using single_value_codec [of "[0xFF]" "[0, 0]" 3] single_value_codec [of "[1, 2, 3, 4]" "[0xFF, 0]" 8]
    single_value_codec [of "[0]" "[7, 9]" 3] single_value_codec [of "[0]" "[7]" 3]
  by simp

text \<open>The \<open>size_t\<close> sum \<open>offset_bits + N\<close> and \<open>bits_to_contain(buffer.size())\<close> as numbers, and
  the agreement of the two embeddings of the bit-field decode functions.\<close>

lemma size_t_sum:
  fixes c :: "64 word"
  shows "unat (c + word_of_nat n) = (unat c + n) mod 2 ^ 64"
  by (simp add: unat_word_ariths unat_of_nat mod_simps)

lemma size_t_sum_no_wrap:
  fixes c :: "64 word"
  assumes "unat c + n < 2 ^ 64"
  shows "unat (c + word_of_nat n) = unat c + n"
  using assms by (simp add: size_t_sum)

lemma size_t_bits_to_contain:
  assumes "8 * k < (2::nat) ^ 64"
  shows "unat (push_bit 3 (word_of_nat k) :: 64 word) = 8 * k"
proof -
  have "(push_bit 3 (word_of_nat k) :: 64 word) = word_of_nat (8 * k)"
    by (simp add: push_bit_eq_mult)
  then show ?thesis using assms by (simp add: unat_of_nat del: of_nat_mult)
qed

lemma decode_BitField_size_t_agrees:
  assumes "unat c + n < 2 ^ 64" "8 * length buffer < 2 ^ 64"
  shows "decode_BitField_size_t buffer c n v =
     (case decode_BitField buffer (unat c) n v of (r, c', v') \<Rightarrow> (r, word_of_nat c', v'))"
  using assms
  by (simp add: decode_BitField_size_t_def decode_BitField_def Let_def word_less_nat_alt
      size_t_sum_no_wrap size_t_bits_to_contain mem_math)

lemma decode_ConstBitField_size_t_agrees:
  "decode_ConstBitField_size_t buffer c n v =
     (case decode_ConstBitField buffer (unat c) n v of (r, c', v') \<Rightarrow> (r, word_of_nat c', v'))"
  by (simp add: decode_ConstBitField_size_t_def decode_ConstBitField_def)

text \<open>
  Claim C6 (amended). Decoding a \<open>ConstBitField<N>\<close> leaves the stored value unchanged and
  adds \<open>N\<close> to the cursor in \<open>size_t\<close> arithmetic: a standalone call returns success, the same
  value and the cursor \<open>(c + N) mod 2 ^ 64\<close>. Whenever \<open>c + N\<close> fits \<open>size_t\<close> this is an
  advance by exactly \<open>N\<close> bits, and then, at the head of the remaining fields of a Packet,
  the field is kept and the rest is decoded from \<open>c + N\<close>. Whatever a Packet-level \<open>decode\<close>
  returns, the ConstBitField values stored anywhere in the Packet are those from before the
  call. The source buffer is a read-only span that \<open>decode\<close> never writes: the embedding of
  \<open>decode\<close> takes it as an argument and does not return it.
\<close>

theorem ConstBitField_decode_keeps_value:
  "decode_ConstBitField_size_t buffer c n v = (Success, c + word_of_nat n, v) \<and>
   unat (fst (snd (decode_ConstBitField_size_t buffer c n v))) = (unat c + n) mod 2 ^ 64 \<and>
   (unat c + n < 2 ^ 64 \<longrightarrow>
      unat (fst (snd (decode_ConstBitField_size_t buffer c n v))) = unat c + n \<and>
      decode buffer (unat c) (ConstBitField n v) = (Success, unat c + n, ConstBitField n v) \<and>
      decode_packet_fields_recursive buffer (unat c) (ConstBitField n v # fs) =
        (case decode_packet_fields_recursive buffer (unat c + n) fs of
           (r, c', fs') \<Rightarrow> (r, c', ConstBitField n v # fs'))) \<and>
   const_fields (PacketField (snd (snd (decode_Packet buffer c0 fs)))) =
     const_fields (PacketField fs)"
proof -
  have
    "const_fields (snd (snd (decode buffer c f))) = const_fields f"
    "concat (map const_fields (snd (snd (decode_packet_fields_recursive buffer c fs)))) =
       concat (map const_fields fs)"
    "concat (map const_fields (snd (snd (decode_Packet buffer c fs)))) =
       concat (map const_fields fs)" for f c
  proof (induction buffer c f and buffer c fs and buffer c fs
      rule: decode_decode_packet_fields_recursive_decode_Packet.induct)
    case (1 buffer offset_bits v)
    then show ?case by (simp split: prod.splits)
  next
    case (2 buffer offset_bits n v)
    then show ?case by (simp split: prod.splits)
  next
    case (3 buffer offset_bits n v)
    then show ?case by (simp add: decode_ConstBitField_def)
  next
    case (4 buffer offset_bits fs)
    then show ?case by (auto split: prod.splits)
  next
    case (5 buffer offset_bits)
    then show ?case by simp
  next
    case (6 buffer offset_bits f fs)
    show ?case
    proof (cases "decode buffer offset_bits f")
      case (fields r c1 f1)
      with "6.IH"(1) have f1: "const_fields f1 = const_fields f" by simp
      show ?thesis
      proof (cases r)
        case Failure
        with fields f1 show ?thesis by simp
      next
        case Success
        with "6.IH"(2)[OF fields[symmetric, unfolded Success] refl refl] fields f1 show ?thesis
          by (auto split: prod.splits)
      qed
    qed
  next
    case (7 buffer offset_bits fs)
    show ?case
    proof (cases "length buffer < bytes_to_contain offset_bits + kSizeBytes fs")
      case True
      then show ?thesis by (simp add: decode_Packet.simps Let_def)
    next
      case False
      from "7.IH"[OF refl refl False] False show ?thesis
        by (auto simp: decode_Packet.simps Let_def split: prod.splits BinaryResult.splits)
    qed
  qed
  then show ?thesis
    by (auto simp: decode_ConstBitField_size_t_def decode_ConstBitField_def size_t_sum
        split: prod.splits)
qed

theorem ConstBitField_decode_keeps_value_witness:
  "unat (5 :: 64 word) + 12 < 2 ^ 64 \<and>
   decode_ConstBitField_size_t [0xAB] 5 12 0x5A5 = (Success, 17, 0x5A5) \<and>
   decode [0xAB] 5 (ConstBitField 12 0x5A5) = (Success, 17, ConstBitField 12 0x5A5) \<and>
   decode_packet_fields_recursive [0xAB] 5 [ConstBitField 12 0x5A5] =
     (Success, 17, [ConstBitField 12 0x5A5])"
  using ConstBitField_decode_keeps_value [of "[0xAB]" 5 12 "0x5A5" "[]" 0]
  by simp

text \<open>
  Claim C6 as stated fails where the sum wraps: from the cursor \<open>SIZE_MAX = 2 ^ 64 - 1\<close> the
  decode of a \<open>ConstBitField<12>\<close> returns the cursor 11, which is not 12 bits past the cursor
  on entry. The stored value is unchanged there too.
\<close>

theorem ConstBitField_decode_cursor_wrap_counterexample:
  "decode_ConstBitField_size_t [0xAB, 0xCD] 0xFFFFFFFFFFFFFFFF 12 0x5A5 = (Success, 11, 0x5A5) \<and>
   unat (11 :: 64 word) \<noteq> unat (0xFFFFFFFFFFFFFFFF :: 64 word) + 12"
  by (simp add: decode_ConstBitField_size_t_def)

text \<open>
  Claim C8 (amended). Standalone \<open>decode\<close> of a \<open>ConstBitField<N>\<close> returns success for
  every source buffer and every cursor, the empty buffer included, and adds \<open>N\<close> to the cursor
  in \<open>size_t\<close> arithmetic: the cursor on return is \<open>(c + N) mod 2 ^ 64\<close>, an advance by \<open>N\<close>
  whenever \<open>c + N\<close> fits \<open>size_t\<close>. It makes no bounds check: where the buffer has fewer than
  \<open>c + N\<close> bits (and \<open>c + N\<close> fits \<open>size_t\<close>), \<open>decode\<close> of a \<open>BitField<N>\<close> returns failure
  and \<open>decode\<close> of a \<open>ConstBitField<N>\<close> returns success.
\<close>

theorem ConstBitField_decode_unchecked:
  "decode_ConstBitField_size_t buffer c n v = (Success, c + word_of_nat n, v) \<and>
   fst (decode_ConstBitField_size_t [] c n v) = Success \<and>
   unat (fst (snd (decode_ConstBitField_size_t buffer c n v))) = (unat c + n) mod 2 ^ 64 \<and>
   (unat c + n < 2 ^ 64 \<longrightarrow>
      unat (fst (snd (decode_ConstBitField_size_t buffer c n v))) = unat c + n) \<and>
   (unat c + n < 2 ^ 64 \<and> 8 * length buffer < unat c + n \<longrightarrow>
      fst (decode_BitField_size_t buffer c n v) = Failure \<and>
      fst (decode_ConstBitField_size_t buffer c n v) = Success)"
proof -
  have "fst (decode_BitField_size_t buffer c n v) = Failure"
    if "unat c + n < 2 ^ 64" "8 * length buffer < unat c + n"
  proof -
    from that have "8 * length buffer < 2 ^ 64" by simp
    with that show ?thesis
      by (simp add: decode_BitField_size_t_agrees decode_BitField_def mem_math Let_def)
  qed
  then show ?thesis
    by (simp add: decode_ConstBitField_size_t_def size_t_sum)
qed

theorem ConstBitField_decode_unchecked_witness:
  "unat (5 :: 64 word) + 12 < 2 ^ 64 \<and>
   8 * length ([] :: byte list) < unat (5 :: 64 word) + 12 \<and>
   decode_ConstBitField_size_t [] 5 12 0 = (Success, 17, 0) \<and>
   fst (decode_BitField_size_t [] 5 12 0) = Failure"
  using ConstBitField_decode_unchecked [of "[]" 5 12 0]
  by simp

text \<open>
  Claim C8 as stated fails where the sum wraps: from the cursor \<open>2 ^ 64 - 4\<close> the decode of a
  \<open>ConstBitField<8>\<close> on the empty buffer returns success and the cursor 4, which is not an
  advance by 8.
\<close>

theorem ConstBitField_decode_unchecked_wrap_counterexample:
  "decode_ConstBitField_size_t [] 0xFFFFFFFFFFFFFFFC 8 1 = (Success, 4, 1) \<and>
   unat (4 :: 64 word) \<noteq> unat (0xFFFFFFFFFFFFFFFC :: 64 word) + 8"
  by (simp add: decode_ConstBitField_size_t_def)

section \<open>Claims on the capacity check\<close>

lemma encode_Packet_guard_fails:
  "length buffer < bytes_to_contain c + kSizeBytes fs \<Longrightarrow>
     encode_Packet fs buffer c = (Failure, buffer, c)"
  by (simp add: encode_Packet.simps Let_def)

lemma decode_Packet_guard_fails:
  "length buffer < bytes_to_contain c + kSizeBytes fs \<Longrightarrow>
     decode_Packet buffer c fs = (Failure, c, fs)"
  by (simp add: decode_Packet.simps Let_def)

lemma guard_passes_bits:
  "bytes_to_contain c + kSizeBytes fs \<le> length buffer \<Longrightarrow>
     8 * ((c + 7) div 8) + packet_size_bits fs \<le> 8 * length buffer"
  using kSizeBytes_eq[of fs] by (simp add: mem_math)

lemma guard_passes_fields:
  assumes "bytes_to_contain c + kSizeBytes fs \<le> length buffer"
  shows "accumulate_packet_field_size_bits_recursive fs (bits_to_contain (bytes_to_contain c))
           \<le> 8 * length buffer"
proof -
  have "accumulate_packet_field_size_bits_recursive fs (8 * ((c + 7) div 8) + 0)
          \<le> 8 * ((c + 7) div 8) + packet_size_bits fs"
    unfolding accumulate_shift packet_size_bits_eq using le_round8 by simp
  with guard_passes_bits[OF assms] show ?thesis
    by (simp add: mem_math)
qed

text \<open>
  Claim C7. If the upfront capacity check of Packet-level \<open>encode\<close> or \<open>decode\<close> passes
  (\<open>ceil(cursor / 8) + size_in_bytes(Packet) \<le> buffer.size()\<close>), the recursion over the fields
  returns success (it stops at the first failing per-field call, so every per-field call
  succeeded) and so does the Packet-level call. Hence the Packet-level call fails exactly
  when the upfront check fails, and on failure \<open>encode\<close> returns the destination buffer as it
  was, and \<open>decode\<close> returns the destination Packet as it was.
\<close>

theorem Packet_fails_only_upfront:
  "(bytes_to_contain c + kSizeBytes fs \<le> length buffer \<longrightarrow>
      fst (encode_packet_fields_recursive fs buffer (bits_to_contain (bytes_to_contain c))) = Success \<and>
      fst (encode_Packet fs buffer c) = Success \<and>
      fst (decode_packet_fields_recursive buffer (bits_to_contain (bytes_to_contain c)) fs) = Success \<and>
      fst (decode_Packet buffer c fs) = Success) \<and>
   (fst (encode_Packet fs buffer c) = Failure \<longleftrightarrow>
      bytes_to_contain c + kSizeBytes fs > length buffer) \<and>
   (fst (decode_Packet buffer c fs) = Failure \<longleftrightarrow>
      bytes_to_contain c + kSizeBytes fs > length buffer) \<and>
   (fst (encode_Packet fs buffer c) = Failure \<longrightarrow>
      fst (snd (encode_Packet fs buffer c)) = buffer) \<and>
   (fst (decode_Packet buffer c fs) = Failure \<longrightarrow>
      snd (snd (decode_Packet buffer c fs)) = fs)"
proof -
  have pass: "fst (encode_packet_fields_recursive fs buffer (bits_to_contain (bytes_to_contain c))) = Success \<and>
      fst (encode_Packet fs buffer c) = Success \<and>
      fst (decode_packet_fields_recursive buffer (bits_to_contain (bytes_to_contain c)) fs) = Success \<and>
      fst (decode_Packet buffer c fs) = Success"
    if "bytes_to_contain c + kSizeBytes fs \<le> length buffer"
    using encode_succeeds(2)[OF guard_passes_fields[OF that]] encode_succeeds(3)[OF guard_passes_bits[OF that]]
      decode_succeeds(2)[OF guard_passes_fields[OF that]] decode_succeeds(3)[OF guard_passes_bits[OF that]]
    by simp
  show ?thesis
  proof (cases "bytes_to_contain c + kSizeBytes fs \<le> length buffer")
    case True
    with pass[OF True] show ?thesis by simp
  next
    case False
    then have "length buffer < bytes_to_contain c + kSizeBytes fs" by simp
    from encode_Packet_guard_fails[OF this] decode_Packet_guard_fails[OF this] False
    show ?thesis by simp
  qed
qed

theorem Packet_fails_only_upfront_witness:
  "bytes_to_contain 3 + kSizeBytes [BitField 3 5, FieldT [7]] \<le> length [0, 0, 0 :: byte] \<and>
   fst (encode_Packet [BitField 3 5, FieldT [7]] [0, 0, 0] 3) = Success \<and>
   fst (decode_Packet [0, 0, 0] 3 [BitField 3 5, FieldT [7]]) = Success \<and>
   bytes_to_contain 3 + kSizeBytes [BitField 3 5, FieldT [7]] > length [0xAA, 0xBB :: byte] \<and>
   fst (encode_Packet [BitField 3 5, FieldT [7]] [0xAA, 0xBB] 3) = Failure \<and>
   fst (snd (encode_Packet [BitField 3 5, FieldT [7]] [0xAA, 0xBB] 3)) = [0xAA, 0xBB] \<and>
   fst (decode_Packet [0xAA, 0xBB] 3 [BitField 3 5, FieldT [7]]) = Failure \<and>
   snd (snd (decode_Packet [0xAA, 0xBB] 3 [BitField 3 5, FieldT [7]])) = [BitField 3 5, FieldT [7]]"
  using Packet_fails_only_upfront [of 3 "[BitField 3 5, FieldT [7]]" "[0, 0, 0]"]
    Packet_fails_only_upfront [of 3 "[BitField 3 5, FieldT [7]]" "[0xAA, 0xBB]"]
  by (simp add: kSizeBytes_def kSizeBits_def packet_size_bits_eq mem_math)

section \<open>Claims on the session adapters\<close>

lemma not_Success_iff: "r \<noteq> Success \<longleftrightarrow> r = Failure"
  by (cases r) simp_all

lemma not_Failure_iff: "r \<noteq> Failure \<longleftrightarrow> r = Success"
  by (cases r) simp_all

text \<open>
  Claim C9. \<open>Ingress<T>::Get\<close> returns failure without calling \<open>Request\<close> when
  \<open>InputBytesAvailable()\<close> is less than \<open>size_in_bytes(T)\<close>. Otherwise it makes exactly one call
  of \<open>Request\<close>, with a zeroed buffer of \<open>size_in_bytes(T)\<close> bytes and the given timeout, decodes
  the buffer the session filled from cursor 0 into the output value, and returns failure
  exactly if the \<open>Request\<close> or the decode fails.
\<close>

theorem Ingress_Get_contract:
  "(InputBytesAvailable s < footprint_size_bytes data \<longrightarrow>
      Ingress_Get s data timeout = (Failure, data, [])) \<and>
   (footprint_size_bytes data \<le> InputBytesAvailable s \<longrightarrow>
      snd (snd (Ingress_Get s data timeout)) =
        [(replicate (footprint_size_bytes data) 0, timeout)] \<and>
      (fst (Ingress_Get s data timeout) = Failure \<longleftrightarrow>
         fst (Request s (replicate (footprint_size_bytes data) 0) timeout) = Failure \<or>
         fst (decode (snd (Request s (replicate (footprint_size_bytes data) 0) timeout)) 0 data)
           = Failure) \<and>
      (fst (Ingress_Get s data timeout) = Success \<longrightarrow>
         fst (snd (Ingress_Get s data timeout)) =
           snd (snd (decode (snd (Request s (replicate (footprint_size_bytes data) 0) timeout))
                       0 data))))"
  by (auto simp: Ingress_Get_def Let_def not_Success_iff split: prod.splits if_splits)

theorem Ingress_Get_contract_witness:
  "InputBytesAvailable \<lparr>InputBytesAvailable = 1, Request = (\<lambda>rx t. (Success, [7, 9]))\<rparr>
     < footprint_size_bytes (FieldT [0, 0]) \<and>
   Ingress_Get \<lparr>InputBytesAvailable = 1, Request = (\<lambda>rx t. (Success, [7, 9]))\<rparr> (FieldT [0, 0]) 5
     = (Failure, FieldT [0, 0], []) \<and>
   footprint_size_bytes (FieldT [0, 0])
     \<le> InputBytesAvailable \<lparr>InputBytesAvailable = 2, Request = (\<lambda>rx t. (Success, [7, 9]))\<rparr> \<and>
   Ingress_Get \<lparr>InputBytesAvailable = 2, Request = (\<lambda>rx t. (Success, [7, 9]))\<rparr> (FieldT [0, 0]) 5
     = (Success, FieldT [7, 9], [([0, 0], 5)])"
  using Ingress_Get_contract [of "\<lparr>InputBytesAvailable = 1, Request = (\<lambda>rx t. (Success, [7, 9]))\<rparr>" "FieldT [0, 0]" 5]
    Ingress_Get_contract [of "\<lparr>InputBytesAvailable = 2, Request = (\<lambda>rx t. (Success, [7, 9]))\<rparr>" "FieldT [0, 0]" 5]
  by (simp add: Ingress_Get_def footprint_size_bytes_def decode_value_def memcpy_def mem_math Let_def
      numeral_2_eq_2)

text \<open>
  Claim C10 (amended). When \<open>Egress<T>::Put\<close> reaches \<open>Post\<close>, the timeout it passes is the
  caller's timeout minus the elapsed encoding time, clamped at zero. For a positive caller
  timeout and clock readings that do not go backwards, the passed timeout is at least zero
  and at most the caller's timeout, and it is strictly positive exactly when the elapsed
  encoding time is less than the caller's timeout.
\<close>

theorem Egress_Put_timeout:
  "snd (Egress_Put s start_us encoding_end_us data duration) = [(tx, t)] \<longrightarrow>
     t = max 0 (duration - (encoding_end_us - start_us)) \<and>
     (0 < duration \<and> start_us \<le> encoding_end_us \<longrightarrow>
        0 \<le> t \<and> t \<le> duration \<and> (0 < t \<longleftrightarrow> encoding_end_us - start_us < duration))"
  by (auto simp: Egress_Put_def Let_def split: prod.splits if_splits)

theorem Egress_Put_timeout_witness:
  "snd (Egress_Put \<lparr>OutputBytesAvailable = 1, Post = (\<lambda>tx t. Success)\<rparr> 10 13 (FieldT [42]) 500)
     = [([42], 497)] \<and>
   497 = max 0 (500 - (13 - 10 :: int)) \<and> (0::int) < 500 \<and> (10::int) \<le> 13 \<and>
   (0::int) \<le> 497 \<and> (497::int) \<le> 500 \<and> (13 - 10 :: int) < 500"
  using Egress_Put_timeout [of "\<lparr>OutputBytesAvailable = 1, Post = (\<lambda>tx t. Success)\<rparr>" 10 13 "FieldT [42]" 500 "[42]" 497]
  by (simp add: Egress_Put_def footprint_size_bytes_def encode_value_def memcpy_def mem_math Let_def)

text \<open>
  Claim C10 as stated fails when encoding takes at least as long as the timeout: with a
  timeout of 1 microsecond and clock readings 0 and 2, \<open>Post\<close> is called with timeout 0.
\<close>

theorem Egress_Put_timeout_counterexample:
  "(0::int) < 1 \<and>
   snd (Egress_Put \<lparr>OutputBytesAvailable = 1, Post = (\<lambda>tx t. Success)\<rparr> 0 2 (FieldT [42]) 1)
     = [([42], 0)] \<and> \<not> (0::int) < 0"
  by (simp add: Egress_Put_def footprint_size_bytes_def encode_value_def memcpy_def mem_math Let_def)

section \<open>Bit-level meaning of the raw bit transfer\<close>

lemma bit_at_split: "r < 8 \<Longrightarrow> bit_at buf (8 * q + r) = (q < length buf \<and> bit (buf ! q) r)"
  by (simp add: bit_at_def)

lemma pos_split: obtains q r where "p = 8 * q + r" "r < (8::nat)"
proof
  show "p = 8 * (p div 8) + p mod 8" by simp
  show "p mod 8 < 8" by simp
qed

lemma encode_step_bits:
  assumes ob: "ob < 8" and n: "0 < n" and fit: "8 * d + ob + n \<le> 8 * length dest"
    and zero: "\<And>p. 8 * d + ob \<le> p \<Longrightarrow> \<not> bit_at dest p"
  shows "bit_at (encode_step ob dest d x n) p =
           (if p < 8 * d + ob then bit_at dest p
            else p < 8 * d + ob + min 8 n \<and> bit x (p - (8 * d + ob)))"
proof -
  obtain q r where p: "p = 8 * q + r" and r: "r < 8" by (rule pos_split)
  have d: "d < length dest" using fit n by arith
  have len: "length (encode_step ob dest d x n) = length dest" by (rule length_encode_step)
  define front where "front = min (8 - ob) n"
  have z: "\<not> bit (dest ! q') r'" if "q' < length dest" "r' < 8" "8 * d + ob \<le> 8 * q' + r'" for q' r'
    using zero[of "8 * q' + r'"] that by (simp add: bit_at_split)
  consider "q < d" | "q = d" | "q = d + 1" | "d + 1 < q" by arith
  then show ?thesis
  proof cases
    case 1
    then have "p < 8 * d + ob" using p r by arith
    moreover have "encode_step ob dest d x n ! q = dest ! q"
      using 1 by (simp add: encode_step_def Let_def)
    ultimately show ?thesis
      unfolding p bit_at_split[OF r] len by simp
  next
    case 2
    have byte: "encode_step ob dest d x n ! d = (dest ! d) OR push_bit ob (x AND mask front)"
      using d by (simp add: encode_step_def Let_def front_def)
    show ?thesis
    proof (cases "r < ob")
      case True
      then show ?thesis
        unfolding p bit_at_split[OF r] len 2 byte using d r
        by (simp add: bit_simps)
    next
      case False
      then have nz: "\<not> bit (dest ! d) r" using z[OF d r] by simp
      have "r - ob < front \<longleftrightarrow> r - ob < min 8 n" using r ob False unfolding front_def by arith
      moreover have "8 * d + r - (8 * d + ob) = r - ob" by simp
      moreover have "8 * d + r < 8 * d + ob + min 8 n \<longleftrightarrow> r - ob < min 8 n" using False by arith
      ultimately show ?thesis
        unfolding p bit_at_split[OF r] len 2 byte using d r False nz
        by (auto simp: bit_simps)
    qed
  next
    case 3
    show ?thesis
    proof (cases "0 < ob \<and> front < n")
      case True
      then have d1: "d + 1 < length dest" using fit ob unfolding front_def by arith
      have "encode_step ob dest d x n = dest[d := (dest ! d) OR push_bit ob (x AND mask front),
              d + 1 := drop_bit front x AND mask (min ob (n - front))]"
        using True unfolding encode_step_def Let_def front_def[symmetric] by simp
      then have byte: "encode_step ob dest d x n ! (d + 1) = drop_bit front x AND mask (min ob (n - front))"
        using d1 by simp
      have fr: "front = 8 - ob" using True unfolding front_def by arith
      have a1: "8 * (d + 1) + r - (8 * d + ob) = front + r" using ob unfolding fr by arith
      have a2: "\<not> 8 * (d + 1) + r < 8 * d + ob" using ob by arith
      have a3: "8 * (d + 1) + r < 8 * d + ob + min 8 n \<longleftrightarrow> front + r < min 8 n"
        using ob unfolding fr by arith
      have a4: "r < min ob (n - front) \<and> front + r < 8 \<longleftrightarrow> front + r < min 8 n"
        using ob True unfolding fr by arith
      have "bit (drop_bit front x AND mask (min ob (n - front))) r \<longleftrightarrow>
              front + r < min 8 n \<and> bit x (front + r)"
        using a4 by (auto simp: bit_simps dest: bit_imp_le_length)
      then show ?thesis
        unfolding p 3 bit_at_split[OF r] len byte a1 using d1 a2 a3 by simp
    next
      case False
      have "encode_step ob dest d x n = dest[d := (dest ! d) OR push_bit ob (x AND mask front)]"
        using False unfolding encode_step_def Let_def front_def[symmetric] by auto
      then have byte: "encode_step ob dest d x n ! (d + 1) = dest ! (d + 1)"
        by simp
      have "\<not> 8 * (d + 1) + r < 8 * d + ob + min 8 n"
        using False ob n unfolding front_def by arith
      moreover have "\<not> 8 * (d + 1) + r < 8 * d + ob" using ob by arith
      moreover have "\<not> bit (dest ! (d + 1)) r" if "d + 1 < length dest"
        using z[OF that r] ob by simp
      ultimately show ?thesis
        unfolding p 3 bit_at_split[OF r] len byte by auto
    qed
  next
    case 4
    have byte: "encode_step ob dest d x n ! q = dest ! q"
      using 4 by (simp add: encode_step_def Let_def)
    have "\<not> 8 * q + r < 8 * d + ob + min 8 n" using 4 ob by arith
    moreover have "\<not> 8 * q + r < 8 * d + ob" using 4 ob by arith
    moreover have "\<not> bit (dest ! q) r" if "q < length dest"
      using z[OF that r] 4 ob by simp
    ultimately show ?thesis
      unfolding p bit_at_split[OF r] len byte by auto
  qed
qed

lemma bit_at_byte: "s < length src \<Longrightarrow> k < 8 \<Longrightarrow> bit (src ! s) k = bit_at src (8 * s + k)"
  by (simp add: bit_at_split)

lemma encode_bits_loop_bits:
  assumes "ob < 8" "8 * d + ob + n \<le> 8 * length dest" "8 * s + n \<le> 8 * length src"
    and "\<And>p. 8 * d + ob \<le> p \<Longrightarrow> \<not> bit_at dest p"
  shows "bit_at (encode_bits_loop ob dest d src s n) p =
           (if p < 8 * d + ob then bit_at dest p
            else p < 8 * d + ob + n \<and> bit_at src (8 * s + (p - (8 * d + ob))))"
  using assms
proof (induction n arbitrary: dest d s p rule: less_induct)
  case (less n)
  note zero = less.prems(4)
  show ?case
  proof (cases "n = 0")
    case True
    then show ?thesis using zero[of p] by (simp add: encode_bits_loop_0)
  next
    case False
    then have n: "0 < n" by simp
    have s: "s < length src" using less.prems(3) n by arith
    let ?dest' = "encode_step ob dest d (src ! s) n"
    have step: "bit_at ?dest' p =
           (if p < 8 * d + ob then bit_at dest p
            else p < 8 * d + ob + min 8 n \<and> bit (src ! s) (p - (8 * d + ob)))" for p
      by (rule encode_step_bits[OF less.prems(1) n less.prems(2) zero])
    have unf: "encode_bits_loop ob dest d src s n =
        encode_bits_loop ob ?dest' (d + 1) src (s + 1) (n - min 8 n)"
      by (rule encode_bits_loop_unfold[OF less.prems(1) n])
    show ?thesis
    proof (cases "n \<le> 8")
      case True
      then have "encode_bits_loop ob dest d src s n = ?dest'"
        unfolding unf by (simp add: encode_bits_loop_0)
      moreover have "bit (src ! s) (p - (8 * d + ob)) = bit_at src (8 * s + (p - (8 * d + ob)))"
        if "p < 8 * d + ob + n"
        using that True by (intro bit_at_byte[OF s]) arith
      ultimately show ?thesis using True
        by (auto simp: step)
    next
      case big: False
      then have m: "n - min 8 n = n - 8" "n - 8 < n" by simp_all
      have len: "length ?dest' = length dest" by (rule length_encode_step)
      have IH: "bit_at (encode_bits_loop ob ?dest' (d + 1) src (s + 1) (n - 8)) p =
           (if p < 8 * (d + 1) + ob then bit_at ?dest' p
            else p < 8 * (d + 1) + ob + (n - 8) \<and>
                 bit_at src (8 * (s + 1) + (p - (8 * (d + 1) + ob))))"
      proof (rule less.IH[OF m(2) less.prems(1)])
        show "8 * (d + 1) + ob + (n - 8) \<le> 8 * length ?dest'"
          using less.prems(2) big unfolding len by arith
        show "8 * (s + 1) + (n - 8) \<le> 8 * length src"
          using less.prems(3) big by arith
        show "\<not> bit_at ?dest' q" if "8 * (d + 1) + ob \<le> q" for q
        proof -
          from that have "\<not> q < 8 * d + ob" "\<not> q < 8 * d + ob + min 8 n" by arith+
          then show ?thesis by (simp only: step if_False simp_thms not_False_eq_True)
        qed
      qed
      have mid: "bit (src ! s) (p - (8 * d + ob)) = bit_at src (8 * s + (p - (8 * d + ob)))"
        if "p < 8 * (d + 1) + ob"
        using that by (intro bit_at_byte[OF s]) arith
      have hi: "8 * (s + 1) + (p - (8 * (d + 1) + ob)) = 8 * s + (p - (8 * d + ob))"
        if "\<not> p < 8 * (d + 1) + ob"
        using that by arith
      have min8: "min 8 n = 8" using big by simp
      consider (lo) "p < 8 * d + ob" | (mi) "8 * d + ob \<le> p" "p < 8 * (d + 1) + ob"
        | (hi) "8 * (d + 1) + ob \<le> p" by arith
      then show ?thesis
      proof cases
        case lo
        then have "p < 8 * (d + 1) + ob" by arith
        with lo show ?thesis unfolding unf m(1) IH step by simp
      next
        case mi
        then have a: "\<not> p < 8 * d + ob" "p < 8 * d + ob + 8" "p < 8 * d + ob + n"
          using big by arith+
        show ?thesis unfolding unf m(1) IH step min8 using mi(2) a mid[OF mi(2)]
          by simp
      next
        case hi': hi
        then have a: "\<not> p < 8 * (d + 1) + ob" "\<not> p < 8 * d + ob" by arith+
        have b: "p < 8 * (d + 1) + ob + (n - 8) \<longleftrightarrow> p < 8 * d + ob + n"
          using big by arith
        show ?thesis unfolding unf m(1) IH using a b hi[OF a(1)]
          by (simp only: if_False)
      qed
    qed
  qed
qed

lemma div_mod_8: "8 * (c div 8) + c mod 8 = (c::nat)"
  by simp

lemma ceil8_split: "(c + 7) div 8 = c div 8 + (if c mod 8 = 0 then 0 else 1)" for c :: nat
proof -
  obtain q r where c: "c = 8 * q + r" and r: "r < 8" by (rule pos_split)
  have "(r + 7) div 8 = (if r = 0 then 0 else 1)"
  proof (cases "r = 0")
    case True
    then show ?thesis by simp
  next
    case False
    then obtain r' where "r = Suc r'" by (cases r) auto
    with r show ?thesis by simp
  qed
  moreover have "(8 * q + r + 7) div 8 = q + (r + 7) div 8"
    by (simp add: add.assoc)
  ultimately show ?thesis using r unfolding c by simp
qed

lemma floor_from_ceil8:
  "(if 0 < c mod 8 \<and> 0 < (c + 7) div 8 then (c + 7) div 8 - 1 else (c + 7) div 8) = c div 8"
  for c :: nat
  by (simp add: ceil8_split)

lemma encode_bits_eq_loop:
  "encode_bits dest src c n = encode_bits_loop (c mod 8) dest (c div 8) src 0 n"
  by (simp add: encode_bits_def Let_def mem_math and_7_eq_mod floor_from_ceil8)

lemma encode_bits_bits:
  assumes "c + n \<le> 8 * length dest" "n \<le> 8 * length src"
    and "\<And>p. c \<le> p \<Longrightarrow> \<not> bit_at dest p"
  shows "bit_at (encode_bits dest src c n) p =
           (if p < c then bit_at dest p else p < c + n \<and> bit_at src (p - c))"
proof -
  have "bit_at (encode_bits_loop (c mod 8) dest (c div 8) src 0 n) p =
           (if p < 8 * (c div 8) + c mod 8 then bit_at dest p
            else p < 8 * (c div 8) + c mod 8 + n \<and>
                 bit_at src (8 * 0 + (p - (8 * (c div 8) + c mod 8))))"
    by (rule encode_bits_loop_bits) (use assms in \<open>simp_all only: div_mod_8\<close>, simp_all)
  then show ?thesis
    by (simp only: encode_bits_eq_loop div_mod_8) simp
qed

lemma decode_bits_loop_0: "decode_bits_loop ob dest d src s 0 = dest"
  by (subst decode_bits_loop.simps) simp

lemma decode_bits_loop_unfold:
  assumes "ob < 8" "0 < n"
  shows "decode_bits_loop ob dest d src s n =
         decode_bits_loop ob (decode_step ob dest d src s n) (d + 1) src (s + 1) (n - min 8 n)"
proof -
  define front where "front = min (8 - ob) n"
  have f8: "front \<le> 8" by (simp add: front_def)
  show ?thesis
  proof (cases "0 < ob \<and> front < n")
    case True
    define left where "left = min ob (n - front)"
    have l8: "left \<le> 8" using assms by (simp add: left_def)
    have sz: "n - front - left = n - min 8 n"
      using True assms unfolding front_def left_def by arith
    have T: "0 < ob \<and> 0 < n - front" using True by simp
    show ?thesis
      apply (subst decode_bits_loop.simps)
      apply (simp only: Let_def assms if_True front_def[symmetric] T left_def[symmetric] sz
                kBitMasks_nth[OF f8] kBitMasks_nth[OF l8])
      apply (simp only: decode_step_def Let_def front_def[symmetric] True if_True left_def[symmetric] simp_thms)
      done
  next
    case False
    have sz: "n - front = n - min 8 n"
      using False assms unfolding front_def by arith
    have F: "\<not> (0 < ob \<and> 0 < n - front)" using False by simp
    show ?thesis
      apply (subst decode_bits_loop.simps)
      apply (simp only: Let_def assms if_True front_def[symmetric] F if_False kBitMasks_nth[OF f8])
      apply (simp only: sz decode_step_def Let_def front_def[symmetric] False if_False simp_thms)
      done
  qed
qed

lemma length_decode_step: "length (decode_step ob dest d src s n) = length dest"
  by (simp add: decode_step_def Let_def)

lemma length_decode_bits_loop:
  "ob < 8 \<Longrightarrow> length (decode_bits_loop ob dest d src s n) = length dest"
proof (induction n arbitrary: dest d s rule: less_induct)
  case (less n)
  show ?case
  proof (cases "n = 0")
    case True
    then show ?thesis by (simp add: decode_bits_loop_0)
  next
    case False
    then have "n - min 8 n < n" by arith
    from less.IH[OF this less.prems] show ?thesis
      using False less.prems by (simp add: decode_bits_loop_unfold length_decode_step)
  qed
qed

lemma decode_step_byte:
  assumes ob: "ob < 8" and n: "0 < n" and d: "d < length dest"
    and fit: "8 * s + ob + n \<le> 8 * length src" and r: "r < 8"
  shows "bit (decode_step ob dest d src s n ! d) r = (r < n \<and> bit_at src (8 * s + ob + r))"
proof -
  define front where "front = min (8 - ob) n"
  have s: "s < length src" using fit n by arith
  show ?thesis
  proof (cases "0 < ob \<and> front < n")
    case True
    define left where "left = min ob (n - front)"
    have fr: "front = 8 - ob" using True unfolding front_def by arith
    have s1: "s + 1 < length src" using fit True ob unfolding fr by arith
    have "decode_step ob dest d src s n =
            dest[d := (drop_bit ob (src ! s) AND mask front) OR
                       push_bit front ((src ! (s + 1)) AND mask left)]"
      using True d unfolding decode_step_def Let_def front_def[symmetric] left_def[symmetric]
      by simp
    then have byte: "decode_step ob dest d src s n ! d =
            (drop_bit ob (src ! s) AND mask front) OR push_bit front ((src ! (s + 1)) AND mask left)"
      using d by simp
    show ?thesis
    proof (cases "ob + r < 8")
      case lo: True
      then have "bit_at src (8 * s + ob + r) = bit (src ! s) (ob + r)"
        using bit_at_byte[OF s lo] by (simp add: add.assoc)
      moreover have "r < front" "r < n" using lo True unfolding fr by arith+
      ultimately show ?thesis unfolding byte using r
        by (auto simp: bit_simps)
    next
      case hi: False
      then have idx: "8 * s + ob + r = 8 * (s + 1) + (r - front)" unfolding fr using ob by arith
      have k: "r - front < 8" using r by arith
      have "bit_at src (8 * s + ob + r) = bit (src ! (s + 1)) (r - front)"
        unfolding idx using bit_at_byte[OF s1 k] by simp
      moreover have "\<not> bit (src ! s) (ob + r)"
        using hi by (auto dest: bit_imp_le_length)
      moreover have "front \<le> r" using hi unfolding fr by arith
      moreover have "r - front < left \<longleftrightarrow> r < n" using hi r ob True unfolding left_def fr by arith
      ultimately show ?thesis unfolding byte using r
        by (auto simp: bit_simps)
    qed
  next
    case False
    have "decode_step ob dest d src s n = dest[d := drop_bit ob (src ! s) AND mask front]"
      using False unfolding decode_step_def Let_def front_def[symmetric] by auto
    then have byte: "decode_step ob dest d src s n ! d = drop_bit ob (src ! s) AND mask front"
      using d by simp
    show ?thesis
    proof (cases "ob + r < 8")
      case lo: True
      then have "bit_at src (8 * s + ob + r) = bit (src ! s) (ob + r)"
        using bit_at_byte[OF s lo] by (simp add: add.assoc)
      moreover have "r < front \<longleftrightarrow> r < n" using lo unfolding front_def by arith
      ultimately show ?thesis unfolding byte using r
        by (auto simp: bit_simps)
    next
      case hi: False
      then have "\<not> bit (src ! s) (ob + r)"
        by (auto dest: bit_imp_le_length)
      moreover have "\<not> r < n" using hi False ob r unfolding front_def by arith
      ultimately show ?thesis unfolding byte using r
        by (auto simp: bit_simps)
    qed
  qed
qed

lemma decode_step_other: "q \<noteq> d \<Longrightarrow> decode_step ob dest d src s n ! q = dest ! q"
  by (simp add: decode_step_def Let_def)

lemma decode_step_bits:
  assumes ob: "ob < 8" and n: "0 < n" and d: "d < length dest"
    and fit: "8 * s + ob + n \<le> 8 * length src"
  shows "bit_at (decode_step ob dest d src s n) p =
           (if 8 * d \<le> p \<and> p < 8 * d + 8 then p - 8 * d < n \<and> bit_at src (8 * s + ob + (p - 8 * d))
            else bit_at dest p)"
proof -
  obtain q r where p: "p = 8 * q + r" and r: "r < 8" by (rule pos_split)
  have len: "length (decode_step ob dest d src s n) = length dest" by (rule length_decode_step)
  show ?thesis
  proof (cases "q = d")
    case True
    have a: "8 * d \<le> 8 * d + r \<and> 8 * d + r < 8 * d + 8" "8 * d + r - 8 * d = r" using r by simp_all
    show ?thesis
      unfolding p True bit_at_split[OF r] len decode_step_byte[OF ob n d fit r] a
      using d r by simp
  next
    case False
    then have "\<not> (8 * d \<le> 8 * q + r \<and> 8 * q + r < 8 * d + 8)" using r by arith
    then show ?thesis
      unfolding p bit_at_split[OF r] len decode_step_other[OF False]
      by (simp only: if_False)
  qed
qed

lemma decode_bits_loop_bits:
  assumes "ob < 8" "8 * s + ob + n \<le> 8 * length src" "8 * d + n \<le> 8 * length dest"
  shows "bit_at (decode_bits_loop ob dest d src s n) p =
           (if 8 * d \<le> p \<and> p < 8 * (d + (n + 7) div 8)
            then p - 8 * d < n \<and> bit_at src (8 * s + ob + (p - 8 * d))
            else bit_at dest p)"
  using assms
proof (induction n arbitrary: dest d s p rule: less_induct)
  case (less n)
  show ?case
  proof (cases "n = 0")
    case True
    then show ?thesis by (auto simp: decode_bits_loop_0)
  next
    case False
    then have n: "0 < n" by simp
    have d: "d < length dest" using less.prems(3) n by arith
    let ?dest' = "decode_step ob dest d src s n"
    have step: "bit_at ?dest' p =
           (if 8 * d \<le> p \<and> p < 8 * d + 8 then p - 8 * d < n \<and> bit_at src (8 * s + ob + (p - 8 * d))
            else bit_at dest p)" for p
      by (rule decode_step_bits[OF less.prems(1) n d less.prems(2)])
    have unf: "decode_bits_loop ob dest d src s n =
        decode_bits_loop ob ?dest' (d + 1) src (s + 1) (n - min 8 n)"
      by (rule decode_bits_loop_unfold[OF less.prems(1) n])
    show ?thesis
    proof (cases "n \<le> 8")
      case True
      then have "decode_bits_loop ob dest d src s n = ?dest'"
        unfolding unf by (simp add: decode_bits_loop_0)
      moreover have "(n + 7) div 8 = 1" using True n by arith
      ultimately show ?thesis
        by (simp add: step)
    next
      case big: False
      then obtain m where nm: "n = m + 8" and m0: "0 < m"
        by (metis add.commute less_imp_add_positive not_le)
      have m: "n - min 8 n = m" "m < n" using nm by simp_all
      have len: "length ?dest' = length dest" by (rule length_decode_step)
      have cnt: "(n + 7) div 8 = (m + 7) div 8 + 1" unfolding nm by simp
      have IH: "bit_at (decode_bits_loop ob ?dest' (d + 1) src (s + 1) m) p =
           (if 8 * (d + 1) \<le> p \<and> p < 8 * (d + 1 + (m + 7) div 8)
            then p - 8 * (d + 1) < m \<and> bit_at src (8 * (s + 1) + ob + (p - 8 * (d + 1)))
            else bit_at ?dest' p)"
      proof (rule less.IH[OF m(2) less.prems(1)])
        show "8 * (s + 1) + ob + m \<le> 8 * length src"
          using less.prems(2) unfolding nm by simp
        show "8 * (d + 1) + m \<le> 8 * length ?dest'"
          using less.prems(3) unfolding nm by (simp add: length_decode_step)
      qed
      have up: "8 * (d + 1 + (m + 7) div 8) = 8 * (d + (n + 7) div 8)"
        unfolding cnt by simp
      have ge1: "8 * d + 8 \<le> 8 * (d + (n + 7) div 8)" unfolding cnt by simp
      consider (lo) "p < 8 * d" | (mi) "8 * d \<le> p" "p < 8 * d + 8" | (hi) "8 * d + 8 \<le> p"
        by linarith
      then show ?thesis
      proof cases
        case lo
        then show ?thesis unfolding unf m(1) IH up step by simp
      next
        case mi
        then have "\<not> 8 * (d + 1) \<le> p" "p < 8 * (d + (n + 7) div 8)" using ge1 by simp_all
        with mi show ?thesis unfolding unf m(1) IH up step by simp
      next
        case hi' : hi
        from hi' obtain k where pk: "p = 8 * d + 8 + k" by (auto simp: le_iff_add)
        have a: "8 * (d + 1) \<le> p" "8 * d \<le> p" "\<not> p < 8 * d + 8" using hi' by simp_all
        have b: "p - 8 * (d + 1) < m \<longleftrightarrow> p - 8 * d < n" unfolding nm pk by simp
        have c: "8 * (s + 1) + ob + (p - 8 * (d + 1)) = 8 * s + ob + (p - 8 * d)" unfolding pk by simp
        show ?thesis unfolding unf m(1) IH up step using a b c by simp
      qed
    qed
  qed
qed

lemma decode_bits_eq_loop:
  "decode_bits dest src c n = decode_bits_loop (c mod 8) dest 0 src (c div 8) n"
  by (simp add: decode_bits_def Let_def mem_math and_7_eq_mod floor_from_ceil8)

lemma length_decode_bits: "length (decode_bits dest src c n) = length dest"
  by (simp add: decode_bits_eq_loop length_decode_bits_loop)

lemma decode_bits_bits:
  assumes "c + n \<le> 8 * length src" "n \<le> 8 * length dest"
  shows "bit_at (decode_bits dest src c n) p =
           (if p < 8 * ((n + 7) div 8) then p < n \<and> bit_at src (c + p) else bit_at dest p)"
proof -
  have "bit_at (decode_bits_loop (c mod 8) dest 0 src (c div 8) n) p =
           (if 8 * 0 \<le> p \<and> p < 8 * (0 + (n + 7) div 8)
            then p - 8 * 0 < n \<and> bit_at src (8 * (c div 8) + c mod 8 + (p - 8 * 0))
            else bit_at dest p)"
  proof (rule decode_bits_loop_bits)
    show "c mod 8 < 8" by simp
    show "8 * (c div 8) + c mod 8 + n \<le> 8 * length src"
      using assms(1) by (simp only: div_mod_8)
    show "8 * 0 + n \<le> 8 * length dest"
      using assms(2) by simp
  qed
  then show ?thesis
    by (simp only: decode_bits_eq_loop div_mod_8) simp
qed

lemma bit_at_to_bytes: "bit_at (to_bytes k v) p = (p < 8 * k \<and> bit v p)"
proof -
  obtain q r where p: "p = 8 * q + r" and r: "r < 8" by (rule pos_split)
  have "8 * q + r < 8 * k \<longleftrightarrow> q < k" using r by arith
  then show ?thesis
    unfolding p bit_at_split[OF r] using r
    by (auto simp: to_bytes_def bit_simps)
qed

lemma bit_at_Cons: "bit_at (b # bs) p = (if p < 8 then bit b p else bit_at bs (p - 8))"
proof (cases "p < 8")
  case True
  then show ?thesis by (simp add: bit_at_def)
next
  case False
  then obtain p' where p: "p = p' + 8" by (metis le_add_diff_inverse2 not_less)
  have "(p' + 8) div 8 = Suc (p' div 8)" "(p' + 8) mod 8 = p' mod 8" by simp_all
  then show ?thesis unfolding p
    by (simp add: bit_at_def)
qed

lemma from_bytes_Cons_or: "from_bytes (b # bs) = unat b OR push_bit 8 (from_bytes bs)"
proof -
  have m: "256 * from_bytes bs = push_bit 8 (from_bytes bs)"
    by (simp add: push_bit_eq_mult)
  have "\<not> bit (unat b) k \<or> \<not> bit (push_bit 8 (from_bytes bs)) k" for k
  proof (cases "k < 8")
    case True
    then show ?thesis by (simp add: bit_push_bit_iff)
  next
    case False
    then have "\<not> bit b k" by (auto dest: bit_imp_le_length)
    then show ?thesis by (simp add: bit_unsigned_iff)
  qed
  then have "unat b + push_bit 8 (from_bytes bs) = unat b OR push_bit 8 (from_bytes bs)"
    by (rule disjunctive_add)
  then show ?thesis by (simp only: from_bytes.simps m)
qed

lemma bit_from_bytes: "bit (from_bytes bs) p = bit_at bs p"
proof (induction bs arbitrary: p)
  case Nil
  then show ?case by (simp add: bit_at_def)
next
  case (Cons b bs)
  have "bit (from_bytes (b # bs)) p = (bit (unat b) p \<or> (8 \<le> p \<and> bit (from_bytes bs) (p - 8)))"
    unfolding from_bytes_Cons_or by (simp only: bit_or_iff bit_push_bit_iff possible_bit_nat simp_thms)
  also have "\<dots> = (bit b p \<or> (8 \<le> p \<and> bit_at bs (p - 8)))"
    by (simp only: Cons.IH bit_unsigned_iff possible_bit_nat simp_thms)
  also have "\<dots> = bit_at (b # bs) p"
    unfolding bit_at_Cons by (auto dest: bit_imp_le_length)
  finally show ?case .
qed

section \<open>Bit-level meaning of the field codec\<close>

lemma bit_at_beyond: "8 * length buf \<le> p \<Longrightarrow> \<not> bit_at buf p"
  by (auto simp: bit_at_def) 

lemma bit_at_append:
  "bit_at (xs @ ys) p = (if p < 8 * length xs then bit_at xs p else bit_at ys (p - 8 * length xs))"
proof -
  obtain q r where p: "p = 8 * q + r" and r: "r < 8" by (rule pos_split)
  have a: "8 * q + r < 8 * length xs \<longleftrightarrow> q < length xs" using r by arith
  show ?thesis
  proof (cases "q < length xs")
    case True
    then show ?thesis unfolding p a bit_at_split[OF r] by (simp add: nth_append)
  next
    case False
    then obtain k where q: "q = length xs + k" by (auto simp: not_less le_iff_add)
    have b: "8 * (length xs + k) + r - 8 * length xs = 8 * k + r" by simp
    show ?thesis using False unfolding p a q b bit_at_split[OF r] by (simp add: nth_append)
  qed
qed

lemma bit_at_take: "bit_at (take k xs) p = (p < 8 * k \<and> bit_at xs p)"
proof -
  obtain q r where p: "p = 8 * q + r" and r: "r < 8" by (rule pos_split)
  have a: "8 * q + r < 8 * k \<longleftrightarrow> q < k" using r by arith
  show ?thesis unfolding p a bit_at_split[OF r] by auto
qed

lemma bit_at_drop: "bit_at (drop k xs) p = bit_at xs (8 * k + p)"
proof -
  obtain q r where p: "p = 8 * q + r" and r: "r < 8" by (rule pos_split)
  have a: "8 * k + (8 * q + r) = 8 * (k + q) + r" by simp
  show ?thesis unfolding p a bit_at_split[OF r] by (auto simp: add.commute)
qed

lemma bit_at_memcpy:
  assumes "d + n \<le> length dest" "n \<le> length src"
  shows "bit_at (memcpy dest d src n) p =
           (if 8 * d \<le> p \<and> p < 8 * d + 8 * n then bit_at src (p - 8 * d) else bit_at dest p)"
proof -
  have ld: "length (take d dest) = d" "length (take n src) = n" using assms by simp_all
  have m: "bit_at (memcpy dest d src n) p =
      (if p < 8 * d then p < 8 * d \<and> bit_at dest p
       else if p - 8 * d < 8 * n then p - 8 * d < 8 * n \<and> bit_at src (p - 8 * d)
            else bit_at dest (8 * (d + n) + (p - 8 * d - 8 * n)))"
    unfolding memcpy_def bit_at_append ld bit_at_take bit_at_drop ..
  consider (lo) "p < 8 * d" | (mi) "8 * d \<le> p" "p < 8 * d + 8 * n" | (hi) "8 * d + 8 * n \<le> p"
    by linarith
  then show ?thesis
  proof cases
    case lo
    then show ?thesis unfolding m by simp
  next
    case mi
    then obtain k where k: "p = 8 * d + k" by (auto simp: le_iff_add)
    with mi have "k < 8 * n" by simp
    then show ?thesis using m unfolding k by simp
  next
    case hi
    then obtain k where k: "p = 8 * d + 8 * n + k" by (auto simp: le_iff_add)
    show ?thesis using m unfolding k by (simp add: add.assoc)
  qed
qed

lemma bit_at_value_bytes: "n \<le> 64 \<Longrightarrow> p < n \<Longrightarrow> bit_at (value_bytes n v) p = bit v p"
  by (auto simp: value_bytes_def bit_at_to_bytes smallest_unsigned_def)

lemma length_value_bytes: "n \<le> 64 \<Longrightarrow> n \<le> 8 * length (value_bytes n v)"
  by (auto simp: value_bytes_def to_bytes_def smallest_unsigned_def)

lemma encode_bit_field_bits:
  assumes "c + n \<le> 8 * length buf" "n \<le> 64" "zero_from buf c"
  shows "bit_at (encode_bits buf (value_bytes n v) c n) p =
           (if p < c then bit_at buf p else p < c + n \<and> bit v (p - c))"
proof -
  have "bit_at (encode_bits buf (value_bytes n v) c n) p =
           (if p < c then bit_at buf p else p < c + n \<and> bit_at (value_bytes n v) (p - c))"
    by (rule encode_bits_bits[OF assms(1) length_value_bytes[OF assms(2)]])
       (use assms(3) in \<open>simp add: zero_from_def\<close>)
  moreover have "bit_at (value_bytes n v) (p - c) = bit v (p - c)" if "\<not> p < c" "p < c + n"
    using that by (intro bit_at_value_bytes[OF assms(2)]) simp
  ultimately show ?thesis by auto
qed

lemma zero_from_mono: "zero_from buf c \<Longrightarrow> c \<le> c' \<Longrightarrow> zero_from buf c'"
  by (auto simp: zero_from_def)

lemma encode_frame:
  "encode f buf c = (Success, b, c') \<Longrightarrow> zero_from buf c \<Longrightarrow> widths_ok f \<Longrightarrow>
     (\<forall>p<c. bit_at b p = bit_at buf p) \<and> zero_from b c' \<and> c \<le> c'"
  "encode_packet_fields_recursive fs buf c = (Success, b, c') \<Longrightarrow> zero_from buf c \<Longrightarrow>
     list_all widths_ok fs \<Longrightarrow>
     (\<forall>p<c. bit_at b p = bit_at buf p) \<and> zero_from b c' \<and> c \<le> c'"
  "encode_Packet fs buf c = (Success, b, c') \<Longrightarrow> zero_from buf c \<Longrightarrow>
     list_all widths_ok fs \<Longrightarrow>
     (\<forall>p<c. bit_at b p = bit_at buf p) \<and> zero_from b c' \<and> c \<le> c'"
proof (induction f buf c and fs buf c and fs buf c arbitrary: b c' and b c' and b c'
    rule: encode_encode_packet_fields_recursive_encode_Packet.induct)
  case (1 v buffer offset_bits)
  let ?start = "(offset_bits + 7) div 8"
  from "1.prems"(1) have g: "?start + length v \<le> length buffer"
    and b: "b = memcpy buffer ?start v (length v)" and c': "c' = 8 * ?start + 8 * length v"
    by (simp_all add: encode_value_Success)
  have le: "offset_bits \<le> 8 * ?start" by (rule le_round8)
  have bits: "bit_at b p =
      (if 8 * ?start \<le> p \<and> p < 8 * ?start + 8 * length v then bit_at v (p - 8 * ?start)
       else bit_at buffer p)" for p
    unfolding b by (rule bit_at_memcpy[OF g]) simp
  have "bit_at b p = bit_at buffer p" if "p < offset_bits" for p
    using that le by (simp add: bits)
  moreover have "zero_from b c'"
    using "1.prems"(2) le unfolding zero_from_def c' by (simp add: bits)
  ultimately show ?case using le unfolding c' by simp
next
  case (2 n v buffer offset_bits)
  from "2.prems"(1) have g: "offset_bits + n \<le> 8 * length buffer"
    and b: "b = encode_bits buffer (value_bytes n v) offset_bits n" and c': "c' = offset_bits + n"
    by (simp_all add: encode_BitField_Success)
  from "2.prems"(3) have n: "n \<le> 64" by simp
  show ?case unfolding b c'
    by (simp add: encode_bit_field_bits[OF g n "2.prems"(2)] zero_from_def)
next
  case (3 n v buffer offset_bits)
  from "3.prems"(1) have g: "offset_bits + n \<le> 8 * length buffer"
    and b: "b = encode_bits buffer (value_bytes n v) offset_bits n" and c': "c' = offset_bits + n"
    by (simp_all add: encode_ConstBitField_Success)
  from "3.prems"(3) have n: "n \<le> 64" by simp
  show ?case unfolding b c'
    by (simp add: encode_bit_field_bits[OF g n "3.prems"(2)] zero_from_def)
next
  case (4 fs buffer offset_bits)
  then show ?case by simp
next
  case (5 buffer offset_bits)
  then show ?case by simp
next
  case (6 f fs buffer offset_bits)
  from "6.prems"(1) obtain b1 c1 where e: "encode f buffer offset_bits = (Success, b1, c1)"
    and r: "encode_packet_fields_recursive fs b1 c1 = (Success, b, c')"
    unfolding encode_packet_fields_recursive_Cons_Success by blast
  from "6.prems"(3) have w: "widths_ok f" "list_all widths_ok fs" by simp_all
  from "6.IH"(1)[OF e "6.prems"(2) w(1)]
  have 1: "\<forall>p<offset_bits. bit_at b1 p = bit_at buffer p" "zero_from b1 c1" "offset_bits \<le> c1"
    by simp_all
  from "6.IH"(2)[OF e[symmetric] refl refl r 1(2) w(2)]
  have 2: "\<forall>p<c1. bit_at b p = bit_at b1 p" "zero_from b c'" "c1 \<le> c'"
    by simp_all
  show ?case using 1 2 by auto
next
  case (7 fs buffer offset_bits)
  let ?start = "(offset_bits + 7) div 8"
  from "7.prems"(1) obtain c1 where g: "?start + kSizeBytes fs \<le> length buffer"
    and r: "encode_packet_fields_recursive fs buffer (8 * ?start) = (Success, b, c1)"
    and c': "c' = 8 * ((c1 + 7) div 8)"
    unfolding encode_Packet_Success by blast
  have le: "offset_bits \<le> 8 * ?start" by (rule le_round8)
  have le': "c1 \<le> c'" unfolding c' by (rule le_round8)
  have z: "zero_from buffer (8 * ?start)" by (rule zero_from_mono[OF "7.prems"(2) le])
  have "(\<forall>p<8 * ?start. bit_at b p = bit_at buffer p) \<and> zero_from b c1 \<and> 8 * ?start \<le> c1"
    using "7.IH"[of "bytes_to_contain offset_bits" "bits_to_contain (bytes_to_contain offset_bits)" b c1]
      g r z "7.prems"(3)
    by (simp add: mem_math)
  then show ?case using le le' zero_from_mono[OF _ le'] by auto
qed

lemma schema_sizes:
  "schema_of d = schema_of f \<Longrightarrow> add_field_size_bits a d = add_field_size_bits a f"
  "map schema_of ds = map schema_of fs \<Longrightarrow>
     accumulate_packet_field_size_bits_recursive ds a =
     accumulate_packet_field_size_bits_recursive fs a"
  "map schema_of ds = map schema_of fs \<Longrightarrow> packet_size_bits ds = packet_size_bits fs"
proof (induction a f and fs a and fs arbitrary: d and ds and ds
    rule: add_field_size_bits_accumulate_packet_field_size_bits_recursive_packet_size_bits.induct)
  case (1 aggregate v)
  then show ?case by (cases d) simp_all
next
  case (2 aggregate n v)
  then show ?case by (cases d) simp_all
next
  case (3 aggregate n v)
  then show ?case by (cases d) simp_all
next
  case (4 aggregate fs)
  from "4.prems" obtain ds where d: "d = PacketField ds" "map schema_of ds = map schema_of fs"
    by (cases d) auto
  from "4.IH"[OF refl d(2)] show ?case unfolding d(1) by (simp add: Let_def)
next
  case (5 aggregate)
  then show ?case by simp
next
  case (6 f fs aggregate)
  from "6.prems" obtain d ds' where ds: "ds = d # ds'" "schema_of d = schema_of f"
    "map schema_of ds' = map schema_of fs"
    by (cases ds) auto
  show ?case unfolding ds(1)
    by (simp add: "6.IH"(1)[OF ds(2)] "6.IH"(2)[OF ds(3)])
next
  case (7 fs)
  from "7.IH"[OF "7.prems"] show ?case by (simp add: packet_size_bits.simps)
qed

lemma bit_at_ext:
  assumes "length xs = length ys" "\<And>p. bit_at xs p = bit_at ys p"
  shows "xs = ys"
proof (rule nth_equalityI[OF assms(1)])
  fix i assume i: "i < length xs"
  show "xs ! i = ys ! i"
  proof (rule bit_eqI)
    fix r assume "possible_bit TYPE(8 word) r"
    then have r: "r < 8" by simp
    from assms(2)[of "8 * i + r"] i assms(1) show "bit (xs ! i) r = bit (ys ! i) r"
      by (simp add: bit_at_split[OF r])
  qed
qed

lemma nat_bit_bound: "v < 2 ^ k \<Longrightarrow> k \<le> p \<Longrightarrow> \<not> bit v p" for v :: nat
proof -
  assume "v < 2 ^ k" "k \<le> p"
  then have "take_bit k v = v" by (simp add: take_bit_nat_eq_self)
  then have "bit v p = bit (take_bit k v) p" by simp
  also have "\<dots> = (p < k \<and> bit v p)" by (simp only: bit_take_bit_iff)
  finally show ?thesis using \<open>k \<le> p\<close> by simp
qed

lemma roundtrip_value:
  assumes g: "(c + 7) div 8 + length v \<le> length buf" and len: "length b' = length buf"
    and agree: "\<And>p. c \<le> p \<Longrightarrow> p < 8 * ((c + 7) div 8) + 8 * length v \<Longrightarrow>
                 bit_at b' p = bit_at (memcpy buf ((c + 7) div 8) v (length v)) p"
    and dv: "length dv = length v"
  shows "decode_value b' c dv = (Success, 8 * ((c + 7) div 8) + 8 * length v, v)"
proof -
  let ?start = "(c + 7) div 8"
  have le: "c \<le> 8 * ?start" by (rule le_round8)
  have r: "memcpy dv 0 (drop ?start b') (length dv) = take (length v) (drop ?start b')"
    by (simp add: memcpy_def dv)
  have "take (length v) (drop ?start b') = v"
  proof (rule bit_at_ext)
    show "length (take (length v) (drop ?start b')) = length v"
      using g len by simp
    fix p
    show "bit_at (take (length v) (drop ?start b')) p = bit_at v p"
    proof (cases "p < 8 * length v")
      case True
      then have "bit_at b' (8 * ?start + p) = bit_at (memcpy buf ?start v (length v)) (8 * ?start + p)"
        using le by (intro agree) simp_all
      also have "\<dots> = bit_at v p"
        using True by (simp add: bit_at_memcpy[OF g])
      finally show ?thesis using True by (simp add: bit_at_take bit_at_drop)
    next
      case False
      then show ?thesis by (simp add: bit_at_take bit_at_beyond)
    qed
  qed
  then show ?thesis
    using g len by (simp add: decode_value_Success dv r[unfolded dv])
qed

lemma roundtrip_bitfield:
  assumes g: "c + n \<le> 8 * length buf" and len: "length b' = length buf"
    and n: "n \<le> 64" and z: "zero_from buf c" and v: "v < 2 ^ n"
    and dv: "dv < 2 ^ (8 * bytes_to_contain n)"
    and agree: "\<And>p. c \<le> p \<Longrightarrow> p < c + n \<Longrightarrow>
                 bit_at b' p = bit_at (encode_bits buf (value_bytes n v) c n) p"
  shows "decode_BitField b' c n dv = (Success, c + n, v)"
proof -
  have g': "c + n \<le> 8 * length b'" using g len by simp
  have "from_bytes (decode_bits (value_bytes n dv) b' c n) = v"
  proof (rule bit_eqI)
    fix p
    have "bit (from_bytes (decode_bits (value_bytes n dv) b' c n)) p =
          (if p < 8 * ((n + 7) div 8) then p < n \<and> bit_at b' (c + p)
           else bit_at (value_bytes n dv) p)"
      unfolding bit_from_bytes
      by (rule decode_bits_bits[OF g' length_value_bytes[OF n]])
    also have "\<dots> = bit v p"
    proof (cases "p < n")
      case True
      then have "p < 8 * ((n + 7) div 8)" using le_round8[of n] by simp
      moreover have "bit_at b' (c + p) = bit v p"
        using True by (simp add: agree encode_bit_field_bits[OF g n z])
      ultimately show ?thesis using True by simp
    next
      case False
      then have nv: "\<not> bit v p" using nat_bit_bound[OF v] by simp
      show ?thesis
      proof (cases "p < 8 * ((n + 7) div 8)")
        case True
        with False nv show ?thesis by simp
      next
        case hi: False
        then have "\<not> bit dv p" using nat_bit_bound[OF dv] by (simp add: mem_math)
        then have "\<not> bit_at (value_bytes n dv) p"
          by (simp add: value_bytes_def bit_at_to_bytes)
        with hi nv show ?thesis by simp
      qed
    qed
    finally show "bit (from_bytes (decode_bits (value_bytes n dv) b' c n)) p = bit v p" .
  qed
  then show ?thesis using g' by (simp add: decode_BitField_Success)
qed

lemma decode_after_encode:
  "encode f buf c = (Success, b, c') \<Longrightarrow> zero_from buf c \<Longrightarrow> widths_ok f \<Longrightarrow>
     values_in_width f \<Longrightarrow> length b' = length buf \<Longrightarrow>
     (\<forall>p. c \<le> p \<and> p < c' \<longrightarrow> bit_at b' p = bit_at b p) \<Longrightarrow>
     schema_of d = schema_of f \<Longrightarrow> spare_bytes_zero d \<Longrightarrow>
     \<exists>r. decode b' c d = (Success, c', r) \<and> mutable_part r = mutable_part f"
  "encode_packet_fields_recursive fs buf c = (Success, b, c') \<Longrightarrow> zero_from buf c \<Longrightarrow>
     list_all widths_ok fs \<Longrightarrow> list_all values_in_width fs \<Longrightarrow> length b' = length buf \<Longrightarrow>
     (\<forall>p. c \<le> p \<and> p < c' \<longrightarrow> bit_at b' p = bit_at b p) \<Longrightarrow>
     map schema_of ds = map schema_of fs \<Longrightarrow> list_all spare_bytes_zero ds \<Longrightarrow>
     \<exists>rs. decode_packet_fields_recursive b' c ds = (Success, c', rs) \<and>
          map mutable_part rs = map mutable_part fs"
  "encode_Packet fs buf c = (Success, b, c') \<Longrightarrow> zero_from buf c \<Longrightarrow>
     list_all widths_ok fs \<Longrightarrow> list_all values_in_width fs \<Longrightarrow> length b' = length buf \<Longrightarrow>
     (\<forall>p. c \<le> p \<and> p < c' \<longrightarrow> bit_at b' p = bit_at b p) \<Longrightarrow>
     map schema_of ds = map schema_of fs \<Longrightarrow> list_all spare_bytes_zero ds \<Longrightarrow>
     \<exists>rs. decode_Packet b' c ds = (Success, c', rs) \<and>
          map mutable_part rs = map mutable_part fs"
proof (induction f buf c and fs buf c and fs buf c
    arbitrary: b c' b' d and b c' b' ds and b c' b' ds
    rule: encode_encode_packet_fields_recursive_encode_Packet.induct)
  case (1 v buffer offset_bits)
  let ?start = "(offset_bits + 7) div 8"
  from "1.prems"(1) have g: "?start + length v \<le> length buffer"
    and b: "b = memcpy buffer ?start v (length v)" and c': "c' = 8 * ?start + 8 * length v"
    by (simp_all add: encode_value_Success)
  from "1.prems"(7) obtain dv where d: "d = FieldT dv" "length dv = length v"
    by (cases d) auto
  have "decode_value b' offset_bits dv = (Success, 8 * ?start + 8 * length v, v)"
    using "1.prems"(6) unfolding b c'
    by (intro roundtrip_value[OF g "1.prems"(5) _ d(2)]) simp
  then show ?case unfolding d(1) c' by simp
next
  case (2 n v buffer offset_bits)
  from "2.prems"(1) have g: "offset_bits + n \<le> 8 * length buffer"
    and b: "b = encode_bits buffer (value_bytes n v) offset_bits n" and c': "c' = offset_bits + n"
    by (simp_all add: encode_BitField_Success)
  from "2.prems"(7) obtain dv where d: "d = BitField n dv"
    by (cases d) auto
  from "2.prems"(3,4,8) have n: "n \<le> 64" and v: "v < 2 ^ n" and dv: "dv < 2 ^ (8 * bytes_to_contain n)"
    unfolding d by simp_all
  have "decode_BitField b' offset_bits n dv = (Success, offset_bits + n, v)"
    using "2.prems"(6) unfolding b c'
    by (intro roundtrip_bitfield[OF g "2.prems"(5) n "2.prems"(2) v dv]) simp
  then show ?case unfolding d c' by simp
next
  case (3 n v buffer offset_bits)
  from "3.prems"(1) have c': "c' = offset_bits + n"
    by (simp add: encode_ConstBitField_Success)
  from "3.prems"(7) obtain dv where d: "d = ConstBitField n dv"
    by (cases d) auto
  show ?case unfolding d c' by (simp add: decode_ConstBitField_def)
next
  case (4 fs buffer offset_bits)
  from "4.prems"(7) obtain ds where d: "d = PacketField ds" "map schema_of ds = map schema_of fs"
    by (cases d) auto
  from "4.prems"(1) have e: "encode_Packet fs buffer offset_bits = (Success, b, c')" by simp
  from "4.prems"(3,4,8) have w: "list_all widths_ok fs" "list_all values_in_width fs"
    "list_all spare_bytes_zero ds" unfolding d by simp_all
  from "4.IH"[OF e "4.prems"(2) w(1,2) "4.prems"(5,6) d(2) w(3)]
  show ?case unfolding d(1) by auto
next
  case (5 buffer offset_bits)
  then show ?case by simp
next
  case (6 f fs buffer offset_bits)
  from "6.prems"(1) obtain b1 c1 where e: "encode f buffer offset_bits = (Success, b1, c1)"
    and r: "encode_packet_fields_recursive fs b1 c1 = (Success, b, c')"
    unfolding encode_packet_fields_recursive_Cons_Success by blast
  from "6.prems"(7) obtain d ds' where ds: "ds = d # ds'" "schema_of d = schema_of f"
    "map schema_of ds' = map schema_of fs"
    by (cases ds) auto
  from "6.prems"(3,4,8) have w: "widths_ok f" "list_all widths_ok fs" "values_in_width f"
    "list_all values_in_width fs" "spare_bytes_zero d" "list_all spare_bytes_zero ds'"
    unfolding ds(1) by simp_all
  from encode_frame(1)[OF e "6.prems"(2) w(1)]
  have 1: "zero_from b1 c1" "offset_bits \<le> c1" by simp_all
  from encode_frame(2)[OF r 1(1) w(2)]
  have 2: "\<forall>p<c1. bit_at b p = bit_at b1 p" "c1 \<le> c'" by simp_all
  from encode_cursor(1)[OF e] have l1: "length b1 = length buffer" by simp
  have a1: "\<forall>p. offset_bits \<le> p \<and> p < c1 \<longrightarrow> bit_at b' p = bit_at b1 p"
    using "6.prems"(6) 2 by auto
  have a2: "\<forall>p. c1 \<le> p \<and> p < c' \<longrightarrow> bit_at b' p = bit_at b p"
    using "6.prems"(6) 1(2) by auto
  from "6.IH"(1)[OF e "6.prems"(2) w(1,3) "6.prems"(5) a1 ds(2) w(5)]
  obtain r1 where d1: "decode b' offset_bits d = (Success, c1, r1)"
    and m1: "mutable_part r1 = mutable_part f" by blast
  from "6.IH"(2)[OF e[symmetric] refl refl r 1(1) w(2,4) _ a2 ds(3) w(6)] "6.prems"(5) l1
  obtain rs where d2: "decode_packet_fields_recursive b' c1 ds' = (Success, c', rs)"
    and m2: "map mutable_part rs = map mutable_part fs" by auto
  show ?case unfolding ds(1) using d1 d2 m1 m2 by simp
next
  case (7 fs buffer offset_bits)
  let ?start = "(offset_bits + 7) div 8"
  from "7.prems"(1) obtain c1 where g: "?start + kSizeBytes fs \<le> length buffer"
    and r: "encode_packet_fields_recursive fs buffer (8 * ?start) = (Success, b, c1)"
    and c': "c' = 8 * ((c1 + 7) div 8)"
    unfolding encode_Packet_Success by blast
  have le: "offset_bits \<le> 8 * ?start" by (rule le_round8)
  have le': "c1 \<le> c'" unfolding c' by (rule le_round8)
  have z: "zero_from buffer (8 * ?start)" by (rule zero_from_mono[OF "7.prems"(2) le])
  have a: "\<forall>p. 8 * ?start \<le> p \<and> p < c1 \<longrightarrow> bit_at b' p = bit_at b p"
    using "7.prems"(6) le le' by auto
  have ks: "kSizeBytes ds = kSizeBytes fs"
    using schema_sizes(3)[OF "7.prems"(7)] by (simp add: kSizeBytes_def kSizeBits_def)
  have "\<exists>rs. decode_packet_fields_recursive b' (8 * ?start) ds = (Success, c1, rs) \<and>
          map mutable_part rs = map mutable_part fs"
    using "7.IH"[of "bytes_to_contain offset_bits" "bits_to_contain (bytes_to_contain offset_bits)"
        b c1 b' ds] g r z a "7.prems"(3,4,5,7,8)
    by (simp add: mem_math)
  then show ?case using g "7.prems"(5) unfolding decode_Packet_Success ks c' by auto
qed

lemma upt_4: "[0..<4] = [0, 1, 2, 3]" and upt_2: "[0..<2] = [0, 1]"
  and upt_8: "[0..<8] = [0, 1, 2, 3, 4, 5, 6, 7]"
  by (simp_all add: upt_rec)

lemma replicate_2: "replicate 2 x = [x, x]" and replicate_3: "replicate 3 x = [x, x, x]"
  and replicate_4: "replicate 4 x = [x, x, x, x]"
  by (simp_all add: numeral_eq_Suc)

lemmas eval_bits = eval_defs encode_bits_def decode_bits_def encode_bits_loop.simps
  decode_bits_loop.simps value_bytes_def to_bytes_def smallest_unsigned_def kBitMasks_def
  and_7_eq_mod memcpy_def upt_2 upt_4 upt_8 replicate_2 replicate_3 replicate_4

section \<open>Claims on the encoded bits\<close>

lemma zero_from_replicate: "zero_from (replicate k 0) c"
  by (simp add: zero_from_def bit_at_def)

lemma encode_Packet_fresh:
  "\<exists>b. encode_Packet fs (replicate (kSizeBytes fs) 0) 0 = (Success, b, kSizeBits fs)"
proof -
  have "fst (encode_Packet fs (replicate (kSizeBytes fs) 0) 0) = Success"
    by (rule encode_succeeds(3)) (simp add: kSizeBytes_eq)
  then obtain b c' where e: "encode_Packet fs (replicate (kSizeBytes fs) 0) 0 = (Success, b, c')"
    by (metis prod.collapse)
  from encode_cursor(3)[OF e] show ?thesis using e by (simp add: kSizeBits_def)
qed

text \<open>
  Claim C1 (amended). Let \<open>fs\<close> be a Packet value whose bit fields are at most 64 bits wide
  and whose BitField values fit their declared widths (\<open>v < 2 ^ N\<close>), and let \<open>ds\<close> be a
  destination Packet of the same schema whose BitField storage is zero above the bytes that
  decoding writes (for instance a default-constructed Packet). Then encoding \<open>fs\<close> into a
  zeroed buffer of \<open>size_in_bytes\<close> bytes from cursor 0 succeeds with cursor
  \<open>size_in_bits\<close>, decoding that buffer from cursor 0 into \<open>ds\<close> succeeds with the same
  cursor, and the decoded Packet has the field values of \<open>fs\<close>, ConstBitField values apart.
\<close>

theorem Packet_round_trip:
  assumes "list_all widths_ok fs" and "list_all values_in_width fs"
    and "map schema_of ds = map schema_of fs" and "list_all spare_bytes_zero ds"
  shows "fst (encode_Packet fs (replicate (kSizeBytes fs) 0) 0) = Success \<and>
         snd (snd (encode_Packet fs (replicate (kSizeBytes fs) 0) 0)) = kSizeBits fs \<and>
         fst (decode_Packet (fst (snd (encode_Packet fs (replicate (kSizeBytes fs) 0) 0))) 0 ds)
           = Success \<and>
         fst (snd (decode_Packet (fst (snd (encode_Packet fs (replicate (kSizeBytes fs) 0) 0))) 0 ds))
           = kSizeBits fs \<and>
         map mutable_part
           (snd (snd (decode_Packet (fst (snd (encode_Packet fs (replicate (kSizeBytes fs) 0) 0))) 0 ds)))
           = map mutable_part fs"
proof -
  from encode_Packet_fresh obtain b
    where e: "encode_Packet fs (replicate (kSizeBytes fs) 0) 0 = (Success, b, kSizeBits fs)"
    by blast
  from encode_cursor(3)[OF e] have l: "length b = length (replicate (kSizeBytes fs) (0::byte))"
    by simp
  from decode_after_encode(3)[OF e zero_from_replicate assms(1,2) l _ assms(3,4)]
  obtain rs where "decode_Packet b 0 ds = (Success, kSizeBits fs, rs)"
    "map mutable_part rs = map mutable_part fs"
    by blast
  then show ?thesis by (simp add: e)
qed

theorem Packet_round_trip_witness:
  "list_all widths_ok
     [BitField 3 5, ConstBitField 2 3, FieldT [0xAB], PacketField [BitField 1 1, BitField 9 300]] \<and>
   list_all values_in_width
     [BitField 3 5, ConstBitField 2 3, FieldT [0xAB], PacketField [BitField 1 1, BitField 9 300]] \<and>
   map schema_of
     [BitField 3 0, ConstBitField 2 1, FieldT [0], PacketField [BitField 1 0, BitField 9 0]] =
   map schema_of
     [BitField 3 5, ConstBitField 2 3, FieldT [0xAB], PacketField [BitField 1 1, BitField 9 300]] \<and>
   list_all spare_bytes_zero
     [BitField 3 0, ConstBitField 2 1, FieldT [0], PacketField [BitField 1 0, BitField 9 0]] \<and>
   encode_Packet
     [BitField 3 5, ConstBitField 2 3, FieldT [0xAB], PacketField [BitField 1 1, BitField 9 300]]
     (replicate 4 0) 0 = (Success, [0x1D, 0xAB, 0x59, 0x02], 32) \<and>
   decode_Packet [0x1D, 0xAB, 0x59, 0x02] 0
     [BitField 3 0, ConstBitField 2 1, FieldT [0], PacketField [BitField 1 0, BitField 9 0]] =
   (Success, 32,
     [BitField 3 5, ConstBitField 2 1, FieldT [0xAB], PacketField [BitField 1 1, BitField 9 300]]) \<and>
   map mutable_part
     [BitField 3 5, ConstBitField 2 1, FieldT [0xAB], PacketField [BitField 1 1, BitField 9 300]] =
   map mutable_part
     [BitField 3 5, ConstBitField 2 3, FieldT [0xAB], PacketField [BitField 1 1, BitField 9 300]]"
proof -
  let ?fs = "[BitField 3 5, ConstBitField 2 3, FieldT [0xAB],
              PacketField [BitField 1 1, BitField 9 300]]"
  let ?ds = "[BitField 3 0, ConstBitField 2 1, FieldT [0],
              PacketField [BitField 1 0, BitField 9 0]]"
  have h1: "list_all widths_ok ?fs" by simp
  have h2: "list_all values_in_width ?fs" by simp
  have h3: "map schema_of ?ds = map schema_of ?fs" by simp
  have h4: "list_all spare_bytes_zero ?ds" by (simp add: mem_math)
  have k: "kSizeBytes ?fs = 4" by (simp add: eval_bits)
  have e: "encode_Packet ?fs (replicate 4 0) 0 = (Success, [0x1D, 0xAB, 0x59, 0x02], 32)"
    by (simp add: eval_bits)
  have d: "decode_Packet [0x1D, 0xAB, 0x59, 0x02] 0 ?ds =
    (Success, 32,
     [BitField 3 5, ConstBitField 2 1, FieldT [0xAB], PacketField [BitField 1 1, BitField 9 300]])"
    by (simp add: eval_bits)
  from Packet_round_trip [OF h1 h2 h3 h4] have
    "map mutable_part
       (snd (snd (decode_Packet (fst (snd (encode_Packet ?fs (replicate (kSizeBytes ?fs) 0) 0))) 0 ?ds)))
     = map mutable_part ?fs"
    by blast
  then have "map mutable_part
     [BitField 3 5, ConstBitField 2 1, FieldT [0xAB], PacketField [BitField 1 1, BitField 9 300]] =
     map mutable_part ?fs"
    by (simp only: k e d fst_conv snd_conv)
  with h1 h2 h3 h4 e d show ?thesis by blast
qed

text \<open>
  Claim C1 as stated fails for a BitField value wider than its declared width, which the
  value type can hold: a \<open>BitField<7>\<close> stores a \<open>uint8_t\<close>; with value 255 it encodes as
  \<open>0x7F\<close> and decodes as 127.
\<close>

theorem Packet_round_trip_counterexample:
  "list_all widths_ok [BitField 7 255] \<and> (255::nat) < 2 ^ smallest_unsigned 7 \<and>
   encode_Packet [BitField 7 255] (replicate (kSizeBytes [BitField 7 255]) 0) 0
     = (Success, [0x7F], 8) \<and>
   decode_Packet [0x7F] 0 [BitField 7 0] = (Success, 8, [BitField 7 127]) \<and>
   BitField 7 127 \<noteq> BitField 7 255"
  by (simp add: eval_bits)

text \<open>
  Why the destination's spare bytes matter: \<open>decode_bits\<close> writes the first \<open>ceil(N / 8)\<close>
  bytes of the stored value only, so a \<open>BitField<20>\<close> (a \<open>uint32_t\<close>) that held
  \<open>0x1000000\<close> before decoding keeps its fourth byte.
\<close>

lemma decode_keeps_spare_bytes:
  "decode_Packet [0xBA, 0xDC, 0x0E] 0 [BitField 20 0x1000000] =
     (Success, 24, [BitField 20 0x10EDCBA])"
  by (simp add: eval_bits)

lemma is_bit_field_widths_ok: "list_all is_bit_field fs \<Longrightarrow> list_all widths_ok fs"
proof (induction fs)
  case Nil
  then show ?case by simp
next
  case (Cons f fs)
  then show ?case by (cases f) simp_all
qed

lemma accumulate_bit_fields:
  "list_all is_bit_field fs \<Longrightarrow>
     accumulate_packet_field_size_bits_recursive fs a = a + sum_list (map footprint_size_bits fs)"
proof (induction fs arbitrary: a)
  case Nil
  then show ?case by simp
next
  case (Cons f fs)
  then show ?case by (cases f) simp_all
qed

lemma encode_bit_fields_bits:
  "list_all is_bit_field fs \<Longrightarrow> encode_packet_fields_recursive fs buf c = (Success, b, c') \<Longrightarrow>
     zero_from buf c \<Longrightarrow> i < length fs \<Longrightarrow> j < footprint_size_bits (fs ! i) \<Longrightarrow>
     bit_at b (c + sum_list (map footprint_size_bits (take i fs)) + j) = bit (stored_value (fs ! i)) j"
proof (induction fs arbitrary: buf c i)
  case Nil
  then show ?case by simp
next
  case (Cons f fs)
  from Cons.prems(2) obtain b1 c1 where e: "encode f buf c = (Success, b1, c1)"
    and r: "encode_packet_fields_recursive fs b1 c1 = (Success, b, c')"
    unfolding encode_packet_fields_recursive_Cons_Success by blast
  from Cons.prems(1) have bf: "is_bit_field f" "list_all is_bit_field fs" by simp_all
  then have w: "widths_ok f" "list_all widths_ok fs"
    using is_bit_field_widths_ok[of "[f]"] is_bit_field_widths_ok[of fs] by simp_all
  from encode_frame(1)[OF e Cons.prems(3) w(1)] have z1: "zero_from b1 c1" by simp
  from encode_frame(2)[OF r z1 w(2)] have fr: "\<forall>p<c1. bit_at b p = bit_at b1 p" by simp
  define n where "n = footprint_size_bits f"
  have c1: "c1 = c + n" and b1: "\<And>p. bit_at b1 p =
      (if p < c then bit_at buf p else p < c + n \<and> bit (stored_value f) (p - c))"
  proof -
    show "c1 = c + n" using e bf(1) unfolding n_def
      by (cases f) (simp_all add: encode_BitField_Success encode_ConstBitField_Success)
    fix p
    show "bit_at b1 p = (if p < c then bit_at buf p else p < c + n \<and> bit (stored_value f) (p - c))"
    proof (cases f)
      case (BitField m v)
      with e bf(1) have "c + m \<le> 8 * length buf" "m \<le> 64"
        "b1 = encode_bits buf (value_bytes m v) c m"
        by (simp_all add: encode_BitField_Success)
      then show ?thesis unfolding n_def BitField
        by (simp add: encode_bit_field_bits[OF _ _ Cons.prems(3)])
    next
      case (ConstBitField m v)
      with e bf(1) have "c + m \<le> 8 * length buf" "m \<le> 64"
        "b1 = encode_bits buf (value_bytes m v) c m"
        by (simp_all add: encode_ConstBitField_Success)
      then show ?thesis unfolding n_def ConstBitField
        by (simp add: encode_bit_field_bits[OF _ _ Cons.prems(3)])
    qed (use bf(1) in simp_all)
  qed
  show ?case
  proof (cases i)
    case 0
    with Cons.prems(5) have j: "j < n" by (simp add: n_def)
    then have "bit_at b (c + j) = bit_at b1 (c + j)" using fr c1 by simp
    then show ?thesis using j 0 by (simp add: b1)
  next
    case (Suc k)
    with Cons.prems(4,5) have k: "k < length fs" "j < footprint_size_bits (fs ! k)" by simp_all
    from Cons.IH[OF bf(2) r z1 k] show ?thesis
      unfolding Suc c1 by (simp add: n_def add.assoc)
  qed
qed

text \<open>
  Claim C4 (amended). For a Packet of BitField and ConstBitField fields only, of widths
  \<open>N1 .. Nk\<close>: \<open>size_in_bits\<close> is the next byte boundary of \<open>N1 + ... + Nk\<close>,
  \<open>size_in_bytes\<close> is \<open>ceil((N1 + ... + Nk) / 8)\<close>, and encoding from cursor 0 into a zeroed
  buffer of at least that many bytes succeeds and lays the fields out contiguously: bit \<open>j\<close>
  of field \<open>i\<close> is the buffer bit at position \<open>N1 + ... + N(i-1) + j\<close>, and no bit is set
  at or beyond position \<open>N1 + ... + Nk\<close>.
\<close>

theorem bit_fields_pack_contiguously:
  assumes "list_all is_bit_field fs"
  shows "kSizeBits fs = next_boundary_bit_pos (sum_list (map footprint_size_bits fs)) \<and>
         kSizeBytes fs = (sum_list (map footprint_size_bits fs) + 7) div 8 \<and>
         (kSizeBytes fs \<le> L \<longrightarrow>
            fst (encode_Packet fs (replicate L 0) 0) = Success \<and>
            snd (snd (encode_Packet fs (replicate L 0) 0)) = kSizeBits fs \<and>
            (\<forall>i<length fs. \<forall>j<footprint_size_bits (fs ! i).
               bit_at (fst (snd (encode_Packet fs (replicate L 0) 0)))
                 (sum_list (map footprint_size_bits (take i fs)) + j)
               = bit (stored_value (fs ! i)) j) \<and>
            (\<forall>p\<ge>sum_list (map footprint_size_bits fs).
               \<not> bit_at (fst (snd (encode_Packet fs (replicate L 0) 0))) p))"
proof -
  let ?sum = "sum_list (map footprint_size_bits fs)"
  have acc: "accumulate_packet_field_size_bits_recursive fs 0 = ?sum"
    using accumulate_bit_fields[OF assms, of 0] by simp
  have bits: "kSizeBits fs = next_boundary_bit_pos ?sum"
    by (simp add: kSizeBits_def packet_size_bits.simps acc)
  have bytes: "kSizeBytes fs = (?sum + 7) div 8"
    by (simp add: kSizeBytes_def bits mem_math)
  have enc: "fst (encode_Packet fs (replicate L 0) 0) = Success \<and>
            snd (snd (encode_Packet fs (replicate L 0) 0)) = kSizeBits fs \<and>
            (\<forall>i<length fs. \<forall>j<footprint_size_bits (fs ! i).
               bit_at (fst (snd (encode_Packet fs (replicate L 0) 0)))
                 (sum_list (map footprint_size_bits (take i fs)) + j)
               = bit (stored_value (fs ! i)) j) \<and>
            (\<forall>p\<ge>?sum. \<not> bit_at (fst (snd (encode_Packet fs (replicate L 0) 0))) p)"
    if L: "kSizeBytes fs \<le> L"
  proof -
    have "8 * ((0 + 7) div 8) + packet_size_bits fs \<le> 8 * length (replicate L (0::byte))"
      using L kSizeBytes_eq[of fs] by simp
    from encode_succeeds(3)[OF this]
    obtain b c' where e: "encode_Packet fs (replicate L 0) 0 = (Success, b, c')"
      by (metis prod.collapse)
    from encode_cursor(3)[OF e] have c': "c' = kSizeBits fs" by (simp add: kSizeBits_def)
    from e obtain c1 where r: "encode_packet_fields_recursive fs (replicate L 0) 0 = (Success, b, c1)"
      unfolding encode_Packet_Success by auto
    from encode_cursor(2)[OF r] have c1: "c1 = ?sum" by (simp add: acc)
    from encode_frame(2)[OF r zero_from_replicate is_bit_field_widths_ok[OF assms]]
    have z: "zero_from b ?sum" unfolding c1 by simp
    have "bit_at b (sum_list (map footprint_size_bits (take i fs)) + j) = bit (stored_value (fs ! i)) j"
      if "i < length fs" "j < footprint_size_bits (fs ! i)" for i j
      using encode_bit_fields_bits[OF assms r zero_from_replicate that] by simp
    then show ?thesis using z unfolding e c' by (simp add: zero_from_def)
  qed
  show ?thesis using bits bytes enc by blast
qed

theorem bit_fields_pack_contiguously_witness:
  "list_all is_bit_field [BitField 3 5, ConstBitField 2 3, BitField 6 33] \<and>
   kSizeBytes [BitField 3 5, ConstBitField 2 3, BitField 6 33] \<le> 2 \<and>
   kSizeBits [BitField 3 5, ConstBitField 2 3, BitField 6 33] = 16 \<and>
   kSizeBytes [BitField 3 5, ConstBitField 2 3, BitField 6 33] = 2 \<and>
   encode_Packet [BitField 3 5, ConstBitField 2 3, BitField 6 33] (replicate 2 0) 0
     = (Success, [0x3D, 0x04], 16) \<and>
   bit_at [0x3D, 0x04]
     (sum_list (map footprint_size_bits
        (take 2 [BitField 3 5, ConstBitField 2 3, BitField 6 33])) + 5)
     = bit (stored_value ([BitField 3 5, ConstBitField 2 3, BitField 6 33] ! 2)) 5 \<and>
   \<not> bit_at [0x3D, 0x04] 11"
proof -
  let ?fs = "[BitField 3 5, ConstBitField 2 3, BitField 6 33]"
  have h: "list_all is_bit_field ?fs"
    by simp
  have L: "kSizeBytes ?fs \<le> 2"
    by (simp add: eval_bits)
  have e: "encode_Packet ?fs (replicate 2 0) 0 = (Success, [0x3D, 0x04], 16)"
    by (simp add: eval_bits)
  from bit_fields_pack_contiguously [OF h, of 2] L
  have sizes: "kSizeBits ?fs = next_boundary_bit_pos (sum_list (map footprint_size_bits ?fs))"
      "kSizeBytes ?fs = (sum_list (map footprint_size_bits ?fs) + 7) div 8"
    and bits: "\<forall>i<length ?fs. \<forall>j<footprint_size_bits (?fs ! i).
        bit_at (fst (snd (encode_Packet ?fs (replicate 2 0) 0)))
          (sum_list (map footprint_size_bits (take i ?fs)) + j)
        = bit (stored_value (?fs ! i)) j"
    and pad: "\<forall>p\<ge>sum_list (map footprint_size_bits ?fs).
        \<not> bit_at (fst (snd (encode_Packet ?fs (replicate 2 0) 0))) p"
    by blast+
  have i: "(2::nat) < length ?fs" "5 < footprint_size_bits (?fs ! 2)"
    by simp_all
  from bits[rule_format, OF i] have b: "bit_at [0x3D, 0x04]
     (sum_list (map footprint_size_bits (take 2 ?fs)) + 5) = bit (stored_value (?fs ! 2)) 5"
    by (simp only: e fst_conv snd_conv simp_thms)
  have "sum_list (map footprint_size_bits ?fs) \<le> 11" by simp
  from pad[rule_format, OF this] have p: "\<not> bit_at [0x3D, 0x04] 11"
    by (simp only: e fst_conv snd_conv simp_thms)
  from sizes have s: "kSizeBits ?fs = 16" "kSizeBytes ?fs = 2"
    by (simp_all add: mem_math)
  from h L s e b p show ?thesis by blast
qed

text \<open>
  Claim C4 as stated fails for a destination buffer that is not zeroed: \<open>encode_bits\<close> ORs
  the bits of a field into the first byte it touches, so a successful encode from cursor 0 of
  two bit fields holding 0 into the byte \<open>0xFF\<close> leaves \<open>0xFF\<close>, and bit 0 of the buffer is
  not bit 0 of the first field.
\<close>

theorem bit_fields_nonzero_buffer_counterexample:
  "list_all is_bit_field [BitField 3 0, BitField 5 0] \<and>
   encode_Packet [BitField 3 0, BitField 5 0] [0xFF] 0 = (Success, [0xFF], 8) \<and>
   bit_at [0xFF] 0 \<and>
   \<not> bit (stored_value ([BitField 3 0, BitField 5 0] ! 0)) 0"
  by (simp add: eval_bits bit_at_def)

end
